theory Spec2Isabelle
  imports Complex_Main "HOL-Library.Word" "HOL-Library.Sublist" "HOL-Library.Log_Nat"
    "HOL-Library.Multiset"
begin

section \<open>Strings of the retrieval engine\<close>

text \<open>
  The service in \<^verbatim>\<open>src/services/ragService.ts\<close> works on JavaScript strings:
  sequences of 16-bit code units, whose \<^verbatim>\<open>length\<close> counts code units. The sentence
  pattern has no \<^verbatim>\<open>u\<close> flag, so its character classes look at one code unit at a time.
\<close>

type_synonym jschar = "16 word"
type_synonym jsstring = "jschar list"

definition utf16 :: "string \<Rightarrow> jsstring" where
  "utf16 cs = map of_char cs"

text \<open>The class \<^verbatim>\<open>[.!?]\<close> of the sentence pattern.\<close>

definition isTerminator :: "jschar \<Rightarrow> bool" where
  "isTerminator c = (c = 0x2E \<or> c = 0x21 \<or> c = 0x3F)"

text \<open>
  The class \<^verbatim>\<open>\s\<close>, which is also what \<^verbatim>\<open>String.prototype.trim\<close> strips: the
  white space and line terminator code units of ECMAScript.
\<close>

definition isSpace :: "jschar \<Rightarrow> bool" where
  "isSpace c = (c = 0x09 \<or> c = 0x0A \<or> c = 0x0B \<or> c = 0x0C \<or> c = 0x0D \<or> c = 0x20
     \<or> c = 0xA0 \<or> c = 0x1680 \<or> (0x2000 \<le> c \<and> c \<le> 0x200A) \<or> c = 0x2028 \<or> c = 0x2029
     \<or> c = 0x202F \<or> c = 0x205F \<or> c = 0x3000 \<or> c = 0xFEFF)"

definition trim :: "jsstring \<Rightarrow> jsstring" where
  "trim s = rev (dropWhile isSpace (rev (dropWhile isSpace s)))"

section \<open>Chunking (indexDocument, lines 103 to 119)\<close>

text \<open>
  One attempt of the pattern
  \<^verbatim>\<open>/[^.!?]+[.!?]+(\s+|$)|[^.!?]+$/\<close> at the start of the remaining input; the
  result is the length of the match. Both \<^verbatim>\<open>+\<close> are greedy and the code units they
  take are disjoint classes, so backtracking cannot find a shorter run that succeeds:
  the first alternative needs the whole run of non-terminators, then the whole run of
  terminators, and then white space (all of it) or the end of the input; the second
  alternative needs the run of non-terminators to reach the end of the input.
\<close>

definition matchHere :: "jsstring \<Rightarrow> nat option" where
  "matchHere s =
     (let body = takeWhile (\<lambda>c. \<not> isTerminator c) s;
          r1 = dropWhile (\<lambda>c. \<not> isTerminator c) s;
          marks = takeWhile isTerminator r1;
          r2 = dropWhile isTerminator r1
      in if body = [] then None
         else if marks \<noteq> [] \<and> (case r2 of [] \<Rightarrow> True | c # _ \<Rightarrow> isSpace c)
         then Some (length body + length marks + length (takeWhile isSpace r2))
         else if r1 = [] then Some (length body)
         else None)"

lemma matchHere_pos: "matchHere s = Some n \<Longrightarrow> 0 < n"
  by (auto simp: matchHere_def Let_def split: if_splits)

text \<open>
  \<^verbatim>\<open>content.match(/.../g)\<close>: the matches from left to right. Where the pattern does
  not match at a position, the search moves one code unit on, and that code unit belongs
  to no match.
\<close>

function matchAll :: "jsstring \<Rightarrow> jsstring list" where
  "matchAll s =
     (if s = [] then []
      else case matchHere s of
             Some n \<Rightarrow> take n s # matchAll (drop n s)
           | None \<Rightarrow> matchAll (tl s))"
  by pat_completeness auto
termination
  by (relation "measure length") (auto dest: matchHere_pos)

declare matchAll.simps [simp del]

text \<open>\<^verbatim>\<open>content.match(...) || [content]\<close>: no match at all gives the whole content.\<close>

definition sentences :: "jsstring \<Rightarrow> jsstring list" where
  "sentences content = (case matchAll content of [] \<Rightarrow> [content] | ms \<Rightarrow> ms)"

definition TARGET_CHUNK_SIZE :: nat where
  "TARGET_CHUNK_SIZE = 1000"

text \<open>The \<^verbatim>\<open>for\<close> loop over the sentences, with the array \<^verbatim>\<open>chunks\<close> and the buffer
  \<^verbatim>\<open>currentChunk\<close> as its state.\<close>

fun chunkLoop :: "jsstring list \<Rightarrow> jsstring list \<Rightarrow> jsstring \<Rightarrow> jsstring list \<times> jsstring" where
  "chunkLoop [] chunks currentChunk = (chunks, currentChunk)"
| "chunkLoop (sentence # rest) chunks currentChunk =
     (if length currentChunk + length sentence > TARGET_CHUNK_SIZE \<and> length currentChunk > 0
      then chunkLoop rest (chunks @ [trim currentChunk]) sentence
      else chunkLoop rest chunks (currentChunk @ sentence))"

definition chunkText :: "jsstring \<Rightarrow> jsstring list" where
  "chunkText content =
     (case chunkLoop (sentences content) [] [] of
        (chunks, currentChunk) \<Rightarrow>
          if length (trim currentChunk) > 0 then chunks @ [trim currentChunk] else chunks)"

section \<open>Numbers and similarity (cosineSimilarity, lines 36 to 43)\<close>

text \<open>
  A JavaScript number is an IEEE 754 double: a finite value, an infinity or \<^verbatim>\<open>NaN\<close>.
  A finite double is modelled by its exact rational value; the sign of zero, which nothing
  in the service observes, is not kept. Every arithmetic operation rounds its exact result
  to the nearest double, ties to even, with gradual underflow and overflow to infinity, as
  the hardware does.
\<close>

datatype jsnum = NaN | NegInf | Fin rat | PosInf

text \<open>Rounding to an integer, ties to the even neighbour.\<close>

definition roundHalfEven :: "rat \<Rightarrow> int" where
  "roundHalfEven x =
     (let f = \<lfloor>x\<rfloor>; d = x - of_int f
      in if d < 1 / 2 then f else if 1 / 2 < d then f + 1 else if even f then f else f + 1)"

text \<open>
  For \<open>x > 0\<close>, the exponent \<open>e\<close> with \<open>2 powi e \<le> x < 2 powi (e + 1)\<close>, from the bit
  lengths of numerator and denominator.
\<close>

definition floorLog2 :: "rat \<Rightarrow> int" where
  "floorLog2 x =
     (case quotient_of x of
        (p, q) \<Rightarrow> let d = bitlen p - bitlen q in if x < 2 powi d then d - 1 else d)"

text \<open>
  The double nearest to \<open>x > 0\<close>: 53 significant bits, no exponent below that of the
  subnormal numbers (a multiple of \<open>2 powi (- 1074)\<close>), and infinity from \<open>2 powi 1024\<close>
  on.
\<close>

definition roundPositive :: "rat \<Rightarrow> jsnum" where
  "roundPositive x =
     (let e = max (floorLog2 x - 52) (- 1074);
          m = roundHalfEven (x / 2 powi e);
          v = of_int m * 2 powi e
      in if 2 powi 1024 \<le> v then PosInf else Fin v)"

fun jsNeg :: "jsnum \<Rightarrow> jsnum" where
  "jsNeg NaN = NaN"
| "jsNeg NegInf = PosInf"
| "jsNeg (Fin a) = Fin (- a)"
| "jsNeg PosInf = NegInf"

definition roundDouble :: "rat \<Rightarrow> jsnum" where
  "roundDouble x =
     (if x = 0 then Fin 0
      else if 0 < x then roundPositive x
      else jsNeg (roundPositive (- x)))"

text \<open>
  The operators \<^verbatim>\<open>+\<close>, \<^verbatim>\<open>-\<close> and \<^verbatim>\<open>*\<close> on numbers: the exact result, rounded;
  \<^verbatim>\<open>NaN\<close> for \<^verbatim>\<open>NaN\<close> operands, for the difference of equal infinities and for zero
  times an infinity.
\<close>

fun jsAdd :: "jsnum \<Rightarrow> jsnum \<Rightarrow> jsnum" where
  "jsAdd (Fin a) (Fin b) = roundDouble (a + b)"
| "jsAdd NaN y = NaN"
| "jsAdd x NaN = NaN"
| "jsAdd PosInf NegInf = NaN"
| "jsAdd NegInf PosInf = NaN"
| "jsAdd PosInf y = PosInf"
| "jsAdd x PosInf = PosInf"
| "jsAdd NegInf y = NegInf"
| "jsAdd x NegInf = NegInf"

definition jsSub :: "jsnum \<Rightarrow> jsnum \<Rightarrow> jsnum" where
  "jsSub x y = jsAdd x (jsNeg y)"

fun jsSign :: "jsnum \<Rightarrow> int" where
  "jsSign NaN = 0"
| "jsSign NegInf = - 1"
| "jsSign (Fin a) = (if a < 0 then - 1 else if a = 0 then 0 else 1)"
| "jsSign PosInf = 1"

fun jsMul :: "jsnum \<Rightarrow> jsnum \<Rightarrow> jsnum" where
  "jsMul (Fin a) (Fin b) = roundDouble (a * b)"
| "jsMul NaN y = NaN"
| "jsMul x NaN = NaN"
| "jsMul x y =
     (if jsSign x * jsSign y = 0 then NaN
      else if 0 < jsSign x * jsSign y then PosInf else NegInf)"

text \<open>The operators \<^verbatim>\<open><\<close>, \<^verbatim>\<open>>\<close> and \<^verbatim>\<open>>=\<close>: false when an operand is \<^verbatim>\<open>NaN\<close>.\<close>

fun jsLess :: "jsnum \<Rightarrow> jsnum \<Rightarrow> bool" where
  "jsLess (Fin a) (Fin b) = (a < b)"
| "jsLess NaN y = False"
| "jsLess x NaN = False"
| "jsLess PosInf y = False"
| "jsLess x NegInf = False"
| "jsLess NegInf y = True"
| "jsLess x PosInf = True"

definition jsGreater :: "jsnum \<Rightarrow> jsnum \<Rightarrow> bool" where
  "jsGreater x y = jsLess y x"


definition jsGreaterEq :: "jsnum \<Rightarrow> jsnum \<Rightarrow> bool" where
  "jsGreaterEq x y = (x \<noteq> NaN \<and> y \<noteq> NaN \<and> \<not> jsLess x y)"

text \<open>
  \<^verbatim>\<open>vec[i]\<close> used as a number: past the end of the array it is \<^verbatim>\<open>undefined\<close>, which
  arithmetic reads as \<^verbatim>\<open>NaN\<close>.
\<close>

definition readAt :: "jsnum list \<Rightarrow> nat \<Rightarrow> jsnum" where
  "readAt vec i = (if i < length vec then vec ! i else NaN)"

text \<open>
  The loop runs over the indices of the query vector and reads \<^verbatim>\<open>docVec[i]\<close> whether or
  not the stored vector is that long.
\<close>

definition cosineSimilarity :: "jsnum list \<Rightarrow> jsnum list \<Rightarrow> jsnum" where
  "cosineSimilarity queryVec docVec =
     foldl (\<lambda>dot i. jsAdd dot (jsMul (readAt queryVec i) (readAt docVec i)))
       (Fin 0) [0..<length queryVec]"

section \<open>Data model (types.ts, lines 23 to 35) and the service state\<close>

record rag_chunk =
  chunk_id :: jsstring
  chunk_text :: jsstring
  embedding :: "jsnum list"
  sourceName :: jsstring

record rag_document =
  doc_id :: jsstring
  doc_name :: jsstring
  timestamp :: nat
  chunkCount :: nat

text \<open>
  The fields of \<^verbatim>\<open>RagService\<close>, the slot \<^verbatim>\<open>captbot_rag_index_v2\<close> of the browser's
  local storage, and two counters of what the service has asked of its surroundings: the
  texts sent to the embedding provider so far, and the number of identifiers drawn.
\<close>

record rag_state =
  chunks :: "rag_chunk list"
  documents :: "rag_document list"
  initialized :: bool
  localStorage :: "jsstring option"
  embedLog :: "jsstring list"
  uuidCount :: nat

text \<open>
  What the surroundings answer. The embedding provider either rejects the call or
  resolves with \<^verbatim>\<open>result.embeddings?.[0]?.values\<close>, which may be missing; its answer may
  depend on how many calls came before. \<^verbatim>\<open>JSON.stringify\<close> and \<^verbatim>\<open>JSON.parse\<close> belong
  to the platform and are parameters; \<^verbatim>\<open>JSON.parse\<close> gives \<open>None\<close> where the
  \<^verbatim>\<open>try\<close> block of \<^verbatim>\<open>loadFromStorage\<close> throws before its first assignment.
  \<^verbatim>\<open>crypto.randomUUID\<close>, \<^verbatim>\<open>Date.now\<close> and \<^verbatim>\<open>localStorage.getItem\<close> are taken to
  succeed. The text of the system document contains the date of the day the module is
  loaded, so it is a parameter too. \<^verbatim>\<open>Array.prototype.sort\<close> is the engine's: it is a
  parameter at the type at which \<^verbatim>\<open>search\<close> calls it, on the array of chunks paired
  with their scores.
\<close>

datatype embed_response = Rejected | Resolved "jsnum list option"

datatype js_error = ClientError

record parsed_index =
  parsed_chunks :: "rag_chunk list option"
  parsed_documents :: "rag_document list option"

record scored_chunk =
  chunk :: rag_chunk
  score :: jsnum

record world =
  getAIThrows :: bool
  embedContent :: "nat \<Rightarrow> jsstring \<Rightarrow> embed_response"
  randomUUID :: "nat \<Rightarrow> jsstring"
  dateNow :: nat
  JSON_stringify :: "rag_chunk list \<Rightarrow> rag_document list \<Rightarrow> jsstring"
  JSON_parse :: "jsstring \<Rightarrow> parsed_index option"
  setItemThrows :: "jsstring \<Rightarrow> bool"
  SYSTEM_KNOWLEDGE_BASE :: jsstring
  arraySort :: "(scored_chunk \<Rightarrow> scored_chunk \<Rightarrow> jsnum) \<Rightarrow> scored_chunk list \<Rightarrow> scored_chunk list"

section \<open>The contract of Array.prototype.sort\<close>

text \<open>
  The abstract operation SortCompare of ECMAScript calls the comparator and reads a result
  that is \<^verbatim>\<open>NaN\<close> as \<open>+0\<close>: \<open>a\<close> sorts before \<open>b\<close> when the result is negative, after
  \<open>b\<close> when it is positive, and is tied with \<open>b\<close> otherwise.
\<close>

definition comesBefore :: "('a \<Rightarrow> 'a \<Rightarrow> jsnum) \<Rightarrow> 'a \<Rightarrow> 'a \<Rightarrow> bool" where
  "comesBefore comparefn a b = jsLess (comparefn a b) (Fin 0)"

definition comesAfter :: "('a \<Rightarrow> 'a \<Rightarrow> jsnum) \<Rightarrow> 'a \<Rightarrow> 'a \<Rightarrow> bool" where
  "comesAfter comparefn a b = jsGreater (comparefn a b) (Fin 0)"

definition tiedWith :: "('a \<Rightarrow> 'a \<Rightarrow> jsnum) \<Rightarrow> 'a \<Rightarrow> 'a \<Rightarrow> bool" where
  "tiedWith comparefn a b = (\<not> comesBefore comparefn a b \<and> \<not> comesAfter comparefn a b)"

text \<open>
  The conditions under which ECMAScript calls a comparator consistent on a set of values,
  over the relations above.
\<close>

definition consistentComparator :: "('a \<Rightarrow> 'a \<Rightarrow> jsnum) \<Rightarrow> 'a set \<Rightarrow> bool" where
  "consistentComparator comparefn S =
     (\<forall>a\<in>S. \<forall>b\<in>S. \<forall>c\<in>S.
        tiedWith comparefn a a
        \<and> (tiedWith comparefn a b \<longrightarrow> tiedWith comparefn b a)
        \<and> (tiedWith comparefn a b \<and> tiedWith comparefn b c \<longrightarrow> tiedWith comparefn a c)
        \<and> (comesBefore comparefn a b \<and> comesBefore comparefn b c \<longrightarrow> comesBefore comparefn a c)
        \<and> (comesAfter comparefn a b \<and> comesAfter comparefn b c \<longrightarrow> comesAfter comparefn a c))"

text \<open>
  What ECMAScript requires of \<^verbatim>\<open>Array.prototype.sort\<close>: the result is a rearrangement of
  the array, and for a consistent comparator it is in order and stable. For any other
  comparator the order is implementation-defined, and nothing more is required.
\<close>

definition conformingSort :: "(('a \<Rightarrow> 'a \<Rightarrow> jsnum) \<Rightarrow> 'a list \<Rightarrow> 'a list) \<Rightarrow> bool" where
  "conformingSort srt =
     (\<forall>comparefn xs.
        mset (srt comparefn xs) = mset xs
        \<and> (consistentComparator comparefn (set xs) \<longrightarrow>
             sorted_wrt (\<lambda>a b. \<not> comesAfter comparefn a b) (srt comparefn xs)
             \<and> (\<forall>a\<in>set xs. filter (tiedWith comparefn a) (srt comparefn xs)
                               = filter (tiedWith comparefn a) xs)))"

text \<open>
  One conforming sort: insertion from the right, which moves an element behind exactly the
  leading elements that it sorts after.
\<close>

fun sortInsert :: "('a \<Rightarrow> 'a \<Rightarrow> jsnum) \<Rightarrow> 'a \<Rightarrow> 'a list \<Rightarrow> 'a list" where
  "sortInsert comparefn x [] = [x]"
| "sortInsert comparefn x (y # ys) =
     (if comesAfter comparefn x y then y # sortInsert comparefn x ys else x # y # ys)"

fun stableSort :: "('a \<Rightarrow> 'a \<Rightarrow> jsnum) \<Rightarrow> 'a list \<Rightarrow> 'a list" where
  "stableSort comparefn [] = []"
| "stableSort comparefn (x # xs) = sortInsert comparefn x (stableSort comparefn xs)"

section \<open>Persistence (loadFromStorage and saveToStorage, lines 65 to 91)\<close>

definition loadFromStorage :: "world \<Rightarrow> rag_state \<Rightarrow> rag_state" where
  "loadFromStorage w s =
     (case localStorage s of
        None \<Rightarrow> s
      | Some data \<Rightarrow>
          if data = [] then s
          else case JSON_parse w data of
                 None \<Rightarrow> s
               | Some parsed \<Rightarrow>
                   s\<lparr>chunks := (case parsed_chunks parsed of None \<Rightarrow> [] | Some cs \<Rightarrow> cs),
                     documents := (case parsed_documents parsed of None \<Rightarrow> [] | Some ds \<Rightarrow> ds)\<rparr>)"

definition saveToStorage :: "world \<Rightarrow> rag_state \<Rightarrow> rag_state" where
  "saveToStorage w s =
     (let serialized = JSON_stringify w (chunks s) (documents s)
      in if length serialized < 4500000
         then (if setItemThrows w serialized then s else s\<lparr>localStorage := Some serialized\<rparr>)
         else s)"

text \<open>
  A fresh process: the field initialisers and the constructor (lines 23 to 30), on
  whatever the local storage holds.
\<close>

definition newRagService :: "world \<Rightarrow> rag_state \<Rightarrow> rag_state" where
  "newRagService w s = loadFromStorage w (s\<lparr>chunks := [], documents := [], initialized := False\<rparr>)"

section \<open>Indexing (indexDocument, lines 93 to 165)\<close>

definition BATCH_SIZE :: nat where
  "BATCH_SIZE = 6"

text \<open>The callback of \<^verbatim>\<open>batch.map\<close>: one call of the provider for one segment.\<close>

definition embedChunk :: "world \<Rightarrow> jsstring \<Rightarrow> jsstring \<Rightarrow> rag_state \<Rightarrow> rag_chunk option \<times> rag_state" where
  "embedChunk w name txt s =
     (case embedContent w (length (embedLog s)) txt of
        Resolved (Some values) \<Rightarrow>
          (Some \<lparr>chunk_id = randomUUID w (uuidCount s), chunk_text = txt,
                 embedding = values, sourceName = name\<rparr>,
           s\<lparr>embedLog := embedLog s @ [txt], uuidCount := Suc (uuidCount s)\<rparr>)
      | _ \<Rightarrow> (None, s\<lparr>embedLog := embedLog s @ [txt]\<rparr>))"

text \<open>
  One batch: the calls are issued in the order of the batch and \<^verbatim>\<open>Promise.all\<close>
  gives the results in that order.
\<close>

fun embedBatch :: "world \<Rightarrow> jsstring \<Rightarrow> jsstring list \<Rightarrow> rag_state \<Rightarrow> rag_chunk option list \<times> rag_state" where
  "embedBatch w name [] s = ([], s)"
| "embedBatch w name (txt # rest) s =
     (case embedChunk w name txt s of
        (r, s1) \<Rightarrow> (case embedBatch w name rest s1 of (rs, s2) \<Rightarrow> (r # rs, s2)))"

text \<open>The loop \<^verbatim>\<open>for (let i = 0; i < chunks.length; i += BATCH_SIZE)\<close>.\<close>

function indexLoop ::
  "world \<Rightarrow> jsstring \<Rightarrow> jsstring list \<Rightarrow> nat \<Rightarrow> rag_chunk list \<Rightarrow> rag_state \<Rightarrow> rag_chunk list \<times> rag_state" where
  "indexLoop w name segs i newChunks s =
     (if i < length segs
      then (case embedBatch w name (take BATCH_SIZE (drop i segs)) s of
              (results, s1) \<Rightarrow>
                indexLoop w name segs (i + BATCH_SIZE) (newChunks @ [c. Some c \<leftarrow> results]) s1)
      else (newChunks, s))"
  by pat_completeness auto
termination
  by (relation "measure (\<lambda>(w, name, segs, i, newChunks, s). length segs - i)")
    (auto simp: BATCH_SIZE_def)

declare indexLoop.simps [simp del]

definition indexDocument ::
  "world \<Rightarrow> jsstring \<Rightarrow> jsstring \<Rightarrow> rag_state \<Rightarrow> (js_error + jsstring option) \<times> rag_state" where
  "indexDocument w name content s =
     (if list_ex (\<lambda>d. doc_name d = name) (documents s) then (Inr None, s)
      else if getAIThrows w then (Inl ClientError, s)
      else
        let docId = randomUUID w (uuidCount s);
            s0 = s\<lparr>uuidCount := Suc (uuidCount s)\<rparr>
        in case indexLoop w name (chunkText content) 0 [] s0 of
             (newChunks, s1) \<Rightarrow>
               (Inr (Some docId),
                saveToStorage w
                  (s1\<lparr>chunks := chunks s1 @ newChunks,
                      documents := documents s1 @
                        [\<lparr>doc_id = docId, doc_name = name, timestamp = dateNow w,
                          chunkCount = length newChunks\<rparr>]\<rparr>)))"

section \<open>Search (lines 167 to 198)\<close>

text \<open>\<^verbatim>\<open>xs.slice(0, end)\<close>: a negative \<^verbatim>\<open>end\<close> counts from the end of the array.\<close>

definition slice0 :: "'a list \<Rightarrow> int \<Rightarrow> 'a list" where
  "slice0 xs e = (if e < 0 then take (nat (int (length xs) + e)) xs else take (nat e) xs)"

definition scoreAll :: "jsnum list \<Rightarrow> rag_chunk list \<Rightarrow> scored_chunk list" where
  "scoreAll queryEmbedding cs =
     map (\<lambda>c. \<lparr>chunk = c, score = cosineSimilarity queryEmbedding (embedding c)\<rparr>) cs"

text \<open>The literal \<^verbatim>\<open>0.45\<close>: the double nearest to 45/100.\<close>

definition THRESHOLD :: jsnum where
  "THRESHOLD = roundDouble (45 / 100)"

text \<open>Lines 188 to 197: score, sort, slice, filter, map.\<close>

definition rankChunks :: "world \<Rightarrow> jsnum list \<Rightarrow> int \<Rightarrow> rag_chunk list \<Rightarrow> rag_chunk list" where
  "rankChunks w queryEmbedding topK cs =
     map chunk
       (filter (\<lambda>s. jsGreater (score s) THRESHOLD)
          (slice0 (arraySort w (\<lambda>a b. jsSub (score b) (score a)) (scoreAll queryEmbedding cs))
             topK))"

text \<open>The parameter list \<^verbatim>\<open>(query: string, topK: number = 5)\<close>.\<close>

definition topKOrDefault :: "int option \<Rightarrow> int" where
  "topKOrDefault topK = (case topK of None \<Rightarrow> 5 | Some k \<Rightarrow> k)"

definition search ::
  "world \<Rightarrow> jsstring \<Rightarrow> int option \<Rightarrow> rag_state \<Rightarrow> (js_error + rag_chunk list) \<times> rag_state" where
  "search w query topK s =
     (if length (chunks s) = 0 then (Inr [], s)
      else if getAIThrows w then (Inl ClientError, s)
      else
        let s1 = s\<lparr>embedLog := embedLog s @ [query]\<rparr>
        in case embedContent w (length (embedLog s)) query of
             Rejected \<Rightarrow> (Inr [], s1)
           | Resolved None \<Rightarrow> (Inr [], s1)
           | Resolved (Some queryEmbedding) \<Rightarrow>
               (Inr (rankChunks w queryEmbedding (topKOrDefault topK) (chunks s)), s1))"

section \<open>Removal, reset and bootstrap (lines 204 to 220 and 45 to 63)\<close>

definition removeDocument :: "world \<Rightarrow> jsstring \<Rightarrow> rag_state \<Rightarrow> rag_state" where
  "removeDocument w i s =
     (case find (\<lambda>d. doc_id d = i) (documents s) of
        None \<Rightarrow> s
      | Some doc \<Rightarrow>
          saveToStorage w
            (s\<lparr>documents := filter (\<lambda>d. doc_id d \<noteq> i) (documents s),
               chunks := filter (\<lambda>c. sourceName c \<noteq> doc_name doc) (chunks s)\<rparr>))"

definition clear :: "rag_state \<Rightarrow> rag_state" where
  "clear s = s\<lparr>chunks := [], documents := [], initialized := False, localStorage := None\<rparr>"

definition SYSTEM_CORE_MEMORY :: jsstring where
  "SYSTEM_CORE_MEMORY = utf16 ''SYSTEM_CORE_MEMORY''"

text \<open>
  \<^verbatim>\<open>init\<close>: an exception of \<^verbatim>\<open>indexDocument\<close> is caught and logged, and the state is
  the one \<^verbatim>\<open>indexDocument\<close> left behind.
\<close>

definition init :: "world \<Rightarrow> rag_state \<Rightarrow> rag_state" where
  "init w s =
     (if initialized s then s
      else
        let s1 = (case find (\<lambda>d. doc_name d = SYSTEM_CORE_MEMORY) (documents s) of
                    None \<Rightarrow> snd (indexDocument w SYSTEM_CORE_MEMORY (SYSTEM_KNOWLEDGE_BASE w) s)
                  | Some sysDoc \<Rightarrow> s)
        in s1\<lparr>initialized := True\<rparr>)"

text \<open>
  The public methods of the service as operations, and a process lifetime as a sequence
  of them, each run to completion on the state the one before left.
\<close>

datatype operation =
    Init world
  | IndexDocument world jsstring jsstring
  | Search world jsstring "int option"
  | GetDocuments
  | RemoveDocument world jsstring
  | Clear

fun applyOperation :: "operation \<Rightarrow> rag_state \<Rightarrow> rag_state" where
  "applyOperation (Init w) s = init w s"
| "applyOperation (IndexDocument w name content) s = snd (indexDocument w name content s)"
| "applyOperation (Search w query topK) s = snd (search w query topK s)"
| "applyOperation GetDocuments s = s"
| "applyOperation (RemoveDocument w i) s = removeDocument w i s"
| "applyOperation Clear s = clear s"

fun isClear :: "operation \<Rightarrow> bool" where
  "isClear Clear = True"
| "isClear _ = False"

fun run :: "operation list \<Rightarrow> rag_state \<Rightarrow> rag_state" where
  "run [] s = s"
| "run (op # ops) s = run ops (applyOperation op s)"

section \<open>Auxiliary notions and example inputs\<close>

text \<open>A segment is within the target size, or it is one whole sentence of the given set
  that is itself above the target size, trimmed.\<close>

definition boundedBy :: "jsstring set \<Rightarrow> jsstring \<Rightarrow> bool" where
  "boundedBy S c =
     (length c \<le> TARGET_CHUNK_SIZE \<or> (\<exists>s\<in>S. TARGET_CHUNK_SIZE < length s \<and> c = trim s))"

text \<open>
  The score of a stored chunk against a query vector, as the code computes it, and the
  test of the filter on it.
\<close>

definition scoreOf :: "jsnum list \<Rightarrow> rag_chunk \<Rightarrow> jsnum" where
  "scoreOf queryEmbedding c = cosineSimilarity queryEmbedding (embedding c)"

definition aboveThreshold :: "jsnum list \<Rightarrow> rag_chunk \<Rightarrow> bool" where
  "aboveThreshold queryEmbedding c = jsGreater (scoreOf queryEmbedding c) THRESHOLD"

text \<open>
  The finite doubles are multiples of \<open>2 powi (- 1074)\<close>, the smallest subnormal number. A
  number is well rounded when, if finite, it is such a multiple.
\<close>

definition onGrid :: "rat \<Rightarrow> bool" where
  "onGrid v = (\<exists>n::int. v = of_int n * 2 powi (- 1074))"

definition wellRounded :: "jsnum \<Rightarrow> bool" where
  "wellRounded x = (case x of Fin v \<Rightarrow> onGrid v | _ \<Rightarrow> True)"

text \<open>Scored chunks none of which has the score \<^verbatim>\<open>NaN\<close>.\<close>

definition numericScores :: "scored_chunk set \<Rightarrow> bool" where
  "numericScores S = (\<forall>s\<in>S. score s \<noteq> NaN \<and> wellRounded (score s))"

text \<open>Concrete surroundings and states, for evaluating the operations.\<close>

definition chunkA :: rag_chunk where
  "chunkA = \<lparr>chunk_id = utf16 ''a1'', chunk_text = utf16 ''Alpha.'', embedding = [Fin (7 / 8), Fin 0],
     sourceName = utf16 ''A''\<rparr>"

definition docA :: rag_document where
  "docA = \<lparr>doc_id = utf16 ''da'', doc_name = utf16 ''A'', timestamp = 0, chunkCount = 1\<rparr>"

definition exampleWorld :: world where
  "exampleWorld = \<lparr>getAIThrows = False,
     embedContent = (\<lambda>n t. Resolved (Some [Fin 1, Fin 0])),
     randomUUID = (\<lambda>n. [of_nat n]),
     dateNow = 0,
     JSON_stringify = (\<lambda>cs ds. replicate (length cs + length ds) 0x78),
     JSON_parse = (\<lambda>data. if data = utf16 ''old''
        then Some \<lparr>parsed_chunks = Some [chunkA], parsed_documents = Some [docA]\<rparr> else None),
     setItemThrows = (\<lambda>data. False),
     SYSTEM_KNOWLEDGE_BASE = utf16 ''You are CaptBot.'',
     arraySort = stableSort\<rparr>"

definition offlineWorld :: world where
  "offlineWorld = exampleWorld\<lparr>getAIThrows := True\<rparr>"

definition failingWorld :: world where
  "failingWorld = exampleWorld\<lparr>embedContent := (\<lambda>n t. Rejected)\<rparr>"

definition hugeWorld :: world where
  "hugeWorld = exampleWorld\<lparr>JSON_stringify := (\<lambda>cs ds. replicate 4500000 0x78)\<rparr>"

definition emptyState :: rag_state where
  "emptyState = \<lparr>chunks = [], documents = [], initialized = False, localStorage = None,
     embedLog = [], uuidCount = 0\<rparr>"

definition chunkB :: rag_chunk where
  "chunkB = \<lparr>chunk_id = utf16 ''b1'', chunk_text = utf16 ''Beta.'', embedding = [Fin (1 / 4), Fin 0],
     sourceName = utf16 ''B''\<rparr>"

definition docB :: rag_document where
  "docB = \<lparr>doc_id = utf16 ''db'', doc_name = utf16 ''B'', timestamp = 0, chunkCount = 1\<rparr>"

definition twoDocState :: rag_state where
  "twoDocState = \<lparr>chunks = [chunkA, chunkB], documents = [docA, docB], initialized = True,
     localStorage = Some (utf16 ''old''), embedLog = [], uuidCount = 0\<rparr>"

definition chunkC :: rag_chunk where
  "chunkC = \<lparr>chunk_id = utf16 ''a2'', chunk_text = utf16 ''Gamma.'', embedding = [Fin (1 / 2), Fin 0],
     sourceName = utf16 ''A''\<rparr>"

definition chunkD :: rag_chunk where
  "chunkD = \<lparr>chunk_id = utf16 ''b2'', chunk_text = utf16 ''Delta.'', embedding = [Fin (1 / 2), Fin 1],
     sourceName = utf16 ''B''\<rparr>"

definition shortChunk :: rag_chunk where
  "shortChunk = \<lparr>chunk_id = utf16 ''s1'', chunk_text = utf16 ''Short.'', embedding = [Fin 1],
     sourceName = utf16 ''B''\<rparr>"

definition rankState :: rag_state where
  "rankState = \<lparr>chunks = [chunkB, chunkC, chunkA, chunkD], documents = [docA, docB],
     initialized = True, localStorage = None, embedLog = [], uuidCount = 0\<rparr>"

text \<open>A store with a vector shorter than the query vector, in front and in the middle.\<close>

definition shortState :: rag_state where
  "shortState = \<lparr>chunks = [shortChunk, chunkA], documents = [docA, docB],
     initialized = True, localStorage = None, embedLog = [], uuidCount = 0\<rparr>"

definition nanState :: rag_state where
  "nanState = \<lparr>chunks = [chunkC, shortChunk, chunkA], documents = [docA, docB],
     initialized = True, localStorage = None, embedLog = [], uuidCount = 0\<rparr>"

text \<open>Operations after the bootstrap: an upload, a search, a listing and a removal.\<close>

definition laterOperations :: "operation list" where
  "laterOperations =
     [IndexDocument exampleWorld (utf16 ''D'') (utf16 ''Hi. Yo''),
      Search exampleWorld (utf16 ''q'') None,
      GetDocuments,
      RemoveDocument exampleWorld (utf16 ''zz'')]"

text \<open>One thousand and one letters, a full stop and a space.\<close>

definition longSentence :: jsstring where
  "longSentence = replicate 1001 0x61 @ [0x2E, 0x20]"

section \<open>Properties of the chunker\<close>

lemma length_trim_le: "length (trim s) \<le> length s"
proof -
  have "length (trim s) = length (dropWhile isSpace (rev (dropWhile isSpace s)))"
    by (simp add: trim_def)
  also have "\<dots> \<le> length (rev (dropWhile isSpace s))" by (rule length_dropWhile_le)
  also have "\<dots> = length (dropWhile isSpace s)" by simp
  also have "\<dots> \<le> length s" by (rule length_dropWhile_le)
  finally show ?thesis .
qed

lemma chunkLoop_bounded:
  assumes "chunkLoop ss acc cur = (acc', cur')"
    and "set ss \<subseteq> S"
    and "length cur \<le> TARGET_CHUNK_SIZE \<or> cur \<in> S"
    and "\<forall>c\<in>set acc. boundedBy S c"
  shows "(length cur' \<le> TARGET_CHUNK_SIZE \<or> cur' \<in> S) \<and> (\<forall>c\<in>set acc'. boundedBy S c)"
  using assms
proof (induction ss arbitrary: acc cur)
  case Nil
  then show ?case by simp
next
  case (Cons x xs)
  have rest: "set xs \<subseteq> S" using Cons.prems(2) by simp
  have tb: "boundedBy S (trim cur)"
    using Cons.prems(3) length_trim_le [of cur]
    by (fastforce simp: boundedBy_def not_le)
  show ?case
  proof (cases "length cur + length x > TARGET_CHUNK_SIZE \<and> length cur > 0")
    case True
    then have step: "chunkLoop xs (acc @ [trim cur]) x = (acc', cur')"
      using Cons.prems(1) by simp
    have b: "length x \<le> TARGET_CHUNK_SIZE \<or> x \<in> S" using Cons.prems(2) by simp
    have c: "\<forall>c\<in>set (acc @ [trim cur]). boundedBy S c"
      using Cons.prems(4) tb by simp
    show ?thesis by (rule Cons.IH [OF step rest b c])
  next
    case False
    then have step: "chunkLoop xs acc (cur @ x) = (acc', cur')"
      using Cons.prems(1) by (auto split: if_splits)
    have b: "length (cur @ x) \<le> TARGET_CHUNK_SIZE \<or> cur @ x \<in> S"
    proof (cases "cur = []")
      case True
      then show ?thesis using Cons.prems(2) by simp
    next
      case False
      with \<open>\<not> (length cur + length x > TARGET_CHUNK_SIZE \<and> length cur > 0)\<close>
      show ?thesis by simp
    qed
    show ?thesis by (rule Cons.IH [OF step rest b Cons.prems(4)])
  qed
qed

lemma chunkLoop_keeps: "set acc \<subseteq> set (fst (chunkLoop ss acc cur))"
  by (induction ss arbitrary: acc cur) (auto simp: subset_iff)

lemma chunkLoop_flushes_big:
  "TARGET_CHUNK_SIZE < length cur \<Longrightarrow>
     trim cur \<in> set (fst (chunkLoop ss acc cur)) \<or> snd (chunkLoop ss acc cur) = cur"
proof (cases ss)
  case Nil
  then show ?thesis by simp
next
  case (Cons x xs)
  assume "TARGET_CHUNK_SIZE < length cur"
  then have "length cur + length x > TARGET_CHUNK_SIZE \<and> length cur > 0" by auto
  then have "chunkLoop ss acc cur = chunkLoop xs (acc @ [trim cur]) x"
    using Cons by simp
  then show ?thesis using chunkLoop_keeps [of "acc @ [trim cur]" xs x] by auto
qed

lemma chunkLoop_big_sentence:
  "s \<in> set ss \<Longrightarrow> TARGET_CHUNK_SIZE < length s \<Longrightarrow>
     trim s \<in> set (fst (chunkLoop ss acc cur)) \<or> snd (chunkLoop ss acc cur) = s"
proof (induction ss arbitrary: acc cur)
  case Nil
  then show ?case by simp
next
  case (Cons x xs)
  show ?case
  proof (cases "s = x")
    case True
    have "chunkLoop (x # xs) acc cur = chunkLoop xs (acc @ [trim cur]) x
        \<or> chunkLoop (x # xs) acc cur = chunkLoop xs acc x"
      using Cons.prems(2) True by (cases "cur = []") auto
    then show ?thesis
      using chunkLoop_flushes_big [of x xs] Cons.prems(2) True by auto
  next
    case False
    then have "s \<in> set xs" using Cons.prems(1) by simp
    then show ?thesis using Cons.IH Cons.prems(2) by simp
  qed
qed

text \<open>
  Claim C9: no segment produced by the chunking step is longer than the target size of
  1000 code units, unless it is a single sentence of the sentence split that alone is
  longer than 1000; such a sentence is emitted whole (trimmed), never split.
\<close>

theorem chunk_size_bound:
  "(\<forall>c\<in>set (chunkText content).
      length c \<le> TARGET_CHUNK_SIZE
      \<or> (\<exists>s\<in>set (sentences content). TARGET_CHUNK_SIZE < length s \<and> c = trim s))
   \<and> (\<forall>s\<in>set (sentences content).
      TARGET_CHUNK_SIZE < length s \<and> trim s \<noteq> [] \<longrightarrow> trim s \<in> set (chunkText content))"
proof (intro conjI ballI impI)
  obtain acc cur where loop: "chunkLoop (sentences content) [] [] = (acc, cur)"
    by (cases "chunkLoop (sentences content) [] []")
  have inv: "(length cur \<le> TARGET_CHUNK_SIZE \<or> cur \<in> set (sentences content))
      \<and> (\<forall>c\<in>set acc. boundedBy (set (sentences content)) c)"
    by (rule chunkLoop_bounded [OF loop]) simp_all
  have tb: "boundedBy (set (sentences content)) (trim cur)"
    using inv length_trim_le [of cur] by (fastforce simp: boundedBy_def not_le)
  {
    fix c assume "c \<in> set (chunkText content)"
    then have "boundedBy (set (sentences content)) c"
      using loop inv tb by (auto simp: chunkText_def split: if_splits)
    then show "length c \<le> TARGET_CHUNK_SIZE
      \<or> (\<exists>s\<in>set (sentences content). TARGET_CHUNK_SIZE < length s \<and> c = trim s)"
      by (simp add: boundedBy_def)
  }
  {
    fix s assume s: "s \<in> set (sentences content)"
      and big: "TARGET_CHUNK_SIZE < length s \<and> trim s \<noteq> []"
    from chunkLoop_big_sentence [OF s, of "[]" "[]"] big loop
    have "trim s \<in> set acc \<or> cur = s" by simp
    then show "trim s \<in> set (chunkText content)"
      using loop big by (auto simp: chunkText_def)
  }
qed

subsection \<open>A sentence of 1003 code units\<close>

lemma takeWhile_replicate_append:
  "P a \<Longrightarrow> takeWhile P (replicate n a @ ys) = replicate n a @ takeWhile P ys"
  by (induction n) auto

lemma dropWhile_replicate_append:
  "P a \<Longrightarrow> dropWhile P (replicate n a @ ys) = dropWhile P ys"
  by (induction n) auto

lemma dropWhile_replicate_keep:
  "\<not> P a \<Longrightarrow> 0 < n \<Longrightarrow> dropWhile P (replicate n a @ ys) = replicate n a @ ys"
  by (cases n) auto

lemma example_classes:
  "\<not> isTerminator 0x61" "isTerminator 0x2E" "\<not> isTerminator 0x20" "\<not> isTerminator 0x62"
  "isSpace 0x20" "\<not> isSpace 0x62" "\<not> isSpace 0x2E" "\<not> isSpace 0x61"
  by (simp_all add: isTerminator_def isSpace_def)

lemma matchHere_long: "matchHere (longSentence @ [0x62]) = Some 1003"
  by (simp add: longSentence_def matchHere_def Let_def takeWhile_replicate_append
      dropWhile_replicate_append example_classes)

lemma matchHere_b: "matchHere [0x62] = Some 1"
  by (simp add: matchHere_def Let_def example_classes)

lemma sentences_long: "sentences (longSentence @ [0x62]) = [longSentence, [0x62]]"
proof -
  have l: "length longSentence = 1003" by (simp add: longSentence_def)
  have "matchAll [0x62] = [[0x62]]"
    by (subst matchAll.simps, simp add: matchHere_b, subst matchAll.simps, simp)
  moreover have "matchAll (longSentence @ [0x62]) = longSentence # matchAll [0x62]"
    by (subst matchAll.simps) (simp add: matchHere_long l)
  ultimately show ?thesis by (simp add: sentences_def)
qed

lemma trim_long: "trim longSentence = replicate 1001 0x61 @ [0x2E]"
  by (simp add: longSentence_def trim_def example_classes dropWhile_replicate_keep)

lemma chunkText_long: "chunkText (longSentence @ [0x62]) = [trim longSentence, [0x62]]"
proof -
  have l: "length longSentence = 1003" by (simp add: longSentence_def)
  have "trim [0x62] = [0x62]" by (simp add: trim_def example_classes)
  then show ?thesis by (simp add: chunkText_def sentences_long TARGET_CHUNK_SIZE_def l trim_long)
qed

theorem chunk_size_bound_witness:
  "[0x62] \<in> set (chunkText (longSentence @ [0x62]))
   \<and> length [0x62 :: jschar] \<le> TARGET_CHUNK_SIZE
   \<and> longSentence \<in> set (sentences (longSentence @ [0x62]))
   \<and> TARGET_CHUNK_SIZE < length longSentence \<and> trim longSentence \<noteq> []
   \<and> trim longSentence \<in> set (chunkText (longSentence @ [0x62]))
   \<and> TARGET_CHUNK_SIZE < length (trim longSentence)"
proof -
  have l: "TARGET_CHUNK_SIZE < length longSentence \<and> trim longSentence \<noteq> []
      \<and> TARGET_CHUNK_SIZE < length (trim longSentence)"
    by (simp add: trim_long TARGET_CHUNK_SIZE_def) (simp add: longSentence_def)
  show ?thesis
    using l chunk_size_bound [of "longSentence @ [0x62]"]
    by (simp add: sentences_long chunkText_long TARGET_CHUNK_SIZE_def)
qed

text \<open>
  Claim C2: joining the segments of the chunking step gives back the input up to white
  space. The code does not do this: where a terminator is directly followed by a
  character that is neither white space nor a terminator, the pattern matches at no
  position of the sentence that ends there, and the text of that sentence, up to and
  including the terminator, is in no segment.
  The input \<^verbatim>\<open>Pi is 3.14.\<close> is indexed as the single segment \<^verbatim>\<open>14.\<close>.
\<close>

theorem chunking_loses_text:
  "chunkText (utf16 ''Pi is 3.14.'') = [utf16 ''14.'']
   \<and> filter (\<lambda>c. \<not> isSpace c) (concat (chunkText (utf16 ''Pi is 3.14.'')))
       \<noteq> filter (\<lambda>c. \<not> isSpace c) (utf16 ''Pi is 3.14.'')"
  by (simp add: chunkText_def sentences_def matchAll.simps matchHere_def utf16_def
      isTerminator_def isSpace_def trim_def TARGET_CHUNK_SIZE_def)

section \<open>Properties of the index operations\<close>

lemma embedChunk_frame:
  "embedChunk w n t s = (r, s') \<Longrightarrow>
     chunks s' = chunks s \<and> documents s' = documents s \<and> initialized s' = initialized s
     \<and> localStorage s' = localStorage s"
  by (auto simp: embedChunk_def split: embed_response.splits option.splits)

lemma embedBatch_frame:
  "embedBatch w n ts s = (rs, s') \<Longrightarrow>
     chunks s' = chunks s \<and> documents s' = documents s \<and> initialized s' = initialized s
     \<and> localStorage s' = localStorage s"
proof (induction ts arbitrary: s rs s')
  case Nil
  then show ?case by simp
next
  case (Cons t ts)
  obtain r s1 where one: "embedChunk w n t s = (r, s1)" by (cases "embedChunk w n t s")
  obtain rs1 s2 where more: "embedBatch w n ts s1 = (rs1, s2)" by (cases "embedBatch w n ts s1")
  have "s' = s2" using Cons.prems one more by simp
  then show ?case using embedChunk_frame [OF one] Cons.IH [OF more] by simp
qed

lemma indexLoop_frame:
  "indexLoop w n segs i acc s = (out, s') \<Longrightarrow>
     chunks s' = chunks s \<and> documents s' = documents s \<and> initialized s' = initialized s
     \<and> localStorage s' = localStorage s"
proof (induction w n segs i acc s rule: indexLoop.induct)
  case (1 w n segs i acc s)
  show ?case
  proof (cases "i < length segs")
    case True
    obtain rs s1 where b: "embedBatch w n (take BATCH_SIZE (drop i segs)) s = (rs, s1)"
      by (cases "embedBatch w n (take BATCH_SIZE (drop i segs)) s")
    have step: "indexLoop w n segs (i + BATCH_SIZE) (acc @ [c. Some c \<leftarrow> rs]) s1 = (out, s')"
      using "1.prems" True b by (subst (asm) indexLoop.simps) simp
    have "chunks s' = chunks s1 \<and> documents s' = documents s1 \<and> initialized s' = initialized s1
     \<and> localStorage s' = localStorage s1"
      using "1.IH" [OF True b [symmetric] step] .
    then show ?thesis using embedBatch_frame [OF b] by simp
  next
    case False
    then show ?thesis using "1.prems" by (subst (asm) indexLoop.simps) simp
  qed
qed

lemma saveToStorage_index:
  "chunks (saveToStorage w s) = chunks s \<and> documents (saveToStorage w s) = documents s
   \<and> initialized (saveToStorage w s) = initialized s"
  by (simp add: saveToStorage_def Let_def)

lemma indexDocument_new:
  assumes "\<not> list_ex (\<lambda>d. doc_name d = n) (documents s)" and "\<not> getAIThrows w"
  shows "\<exists>i ns. documents (snd (indexDocument w n c s)) =
           documents s @ [\<lparr>doc_id = i, doc_name = n, timestamp = dateNow w, chunkCount = length ns\<rparr>]
         \<and> chunks (snd (indexDocument w n c s)) = chunks s @ ns
         \<and> fst (indexDocument w n c s) = Inr (Some i)"
proof -
  let ?s0 = "s\<lparr>uuidCount := Suc (uuidCount s)\<rparr>"
  obtain ns s1 where loop: "indexLoop w n (chunkText c) 0 [] ?s0 = (ns, s1)"
    by (cases "indexLoop w n (chunkText c) 0 [] ?s0")
  have fr: "chunks s1 = chunks s \<and> documents s1 = documents s"
    using indexLoop_frame [OF loop] by simp
  show ?thesis using assms loop fr
    by (simp add: indexDocument_def Let_def saveToStorage_index)
qed

text \<open>
  Claim C3: indexDocument is idempotent by name. On a state that already holds a document
  of that name the call returns at once and the whole state is as before: the documents,
  the chunks, the storage and the log of provider calls, so no embedding call is made. A
  second call after a first one that returned is such a call, whatever the provider would
  answer; and a first call on a state without the name leaves exactly one document of
  that name.
\<close>

theorem indexDocument_idempotent:
  "(list_ex (\<lambda>d. doc_name d = n) (documents s) \<longrightarrow> indexDocument w n c s = (Inr None, s))
   \<and> (\<forall>r. fst (indexDocument w n c s) = Inr r \<longrightarrow>
        indexDocument w' n c' (snd (indexDocument w n c s))
          = (Inr None, snd (indexDocument w n c s)))
   \<and> (\<not> list_ex (\<lambda>d. doc_name d = n) (documents s) \<and> \<not> getAIThrows w \<longrightarrow>
        length (filter (\<lambda>d. doc_name d = n) (documents (snd (indexDocument w n c s)))) = 1)"
proof (intro conjI allI impI)
  assume "list_ex (\<lambda>d. doc_name d = n) (documents s)"
  then show "indexDocument w n c s = (Inr None, s)" by (simp add: indexDocument_def)
next
  fix r assume ok: "fst (indexDocument w n c s) = Inr r"
  have "list_ex (\<lambda>d. doc_name d = n) (documents (snd (indexDocument w n c s)))"
  proof (cases "list_ex (\<lambda>d. doc_name d = n) (documents s)")
    case True
    then show ?thesis by (simp add: indexDocument_def)
  next
    case False
    then have "\<not> getAIThrows w" using ok by (auto simp: indexDocument_def split: if_splits)
    from indexDocument_new [OF False this, of c] show ?thesis by (auto simp: list_ex_iff)
  qed
  then show "indexDocument w' n c' (snd (indexDocument w n c s)) = (Inr None, snd (indexDocument w n c s))"
    by (simp add: indexDocument_def)
next
  assume h: "\<not> list_ex (\<lambda>d. doc_name d = n) (documents s) \<and> \<not> getAIThrows w"
  then have none: "filter (\<lambda>d. doc_name d = n) (documents s) = []"
    by (auto simp: list_ex_iff filter_empty_conv)
  from h indexDocument_new [of n s w c] none
  show "length (filter (\<lambda>d. doc_name d = n) (documents (snd (indexDocument w n c s)))) = 1"
    by auto
qed

text \<open>A first call on the empty index, evaluated.\<close>

lemma example_index:
  "indexDocument exampleWorld (utf16 ''D'') (utf16 ''Hi. Yo'') emptyState =
     (Inr (Some [0]),
      \<lparr>chunks = [\<lparr>chunk_id = [1], chunk_text = utf16 ''Hi. Yo'', embedding = [Fin 1, Fin 0],
                  sourceName = utf16 ''D''\<rparr>],
       documents = [\<lparr>doc_id = [0], doc_name = utf16 ''D'', timestamp = 0, chunkCount = 1\<rparr>],
       initialized = False, localStorage = Some [0x78, 0x78],
       embedLog = [utf16 ''Hi. Yo''], uuidCount = 2\<rparr>)"
  by (simp add: indexDocument_def Let_def emptyState_def exampleWorld_def indexLoop.simps
      BATCH_SIZE_def embedChunk_def saveToStorage_def chunkText_def sentences_def
      matchAll.simps matchHere_def utf16_def isTerminator_def isSpace_def trim_def
      TARGET_CHUNK_SIZE_def chunkA_def docA_def)

theorem indexDocument_idempotent_witness:
  "list_ex (\<lambda>d. doc_name d = utf16 ''A'') (documents twoDocState)
   \<and> indexDocument exampleWorld (utf16 ''A'') (utf16 ''Hi.'') twoDocState = (Inr None, twoDocState)
   \<and> fst (indexDocument exampleWorld (utf16 ''D'') (utf16 ''Hi. Yo'') emptyState) = Inr (Some [0])
   \<and> indexDocument exampleWorld (utf16 ''D'') (utf16 ''Hi. Yo'')
        (snd (indexDocument exampleWorld (utf16 ''D'') (utf16 ''Hi. Yo'') emptyState))
      = (Inr None, snd (indexDocument exampleWorld (utf16 ''D'') (utf16 ''Hi. Yo'') emptyState))
   \<and> \<not> list_ex (\<lambda>d. doc_name d = utf16 ''D'') (documents emptyState)
   \<and> \<not> getAIThrows exampleWorld
   \<and> length (filter (\<lambda>d. doc_name d = utf16 ''D'')
        (documents (snd (indexDocument exampleWorld (utf16 ''D'') (utf16 ''Hi. Yo'') emptyState)))) = 1
   \<and> embedLog (snd (indexDocument exampleWorld (utf16 ''D'') (utf16 ''Hi. Yo'') emptyState))
      = [utf16 ''Hi. Yo'']"
proof -
  have a: "list_ex (\<lambda>d. doc_name d = utf16 ''A'') (documents twoDocState)"
    by (simp add: twoDocState_def docA_def docB_def)
  have b: "fst (indexDocument exampleWorld (utf16 ''D'') (utf16 ''Hi. Yo'') emptyState) = Inr (Some [0])"
    by (simp add: example_index)
  have c: "\<not> list_ex (\<lambda>d. doc_name d = utf16 ''D'') (documents emptyState)
      \<and> \<not> getAIThrows exampleWorld"
    by (simp add: emptyState_def exampleWorld_def)
  have d: "embedLog (snd (indexDocument exampleWorld (utf16 ''D'') (utf16 ''Hi. Yo'') emptyState))
      = [utf16 ''Hi. Yo'']"
    by (simp add: example_index)
  show ?thesis
    using a b c d
      indexDocument_idempotent [of "utf16 ''A''" twoDocState exampleWorld "utf16 ''Hi.''"]
      indexDocument_idempotent [of "utf16 ''D''" emptyState exampleWorld "utf16 ''Hi. Yo''"
        exampleWorld "utf16 ''Hi. Yo''"]
    by simp
qed

text \<open>
  Claim C8: on an index with no chunks, search returns the empty list for every query and
  every topK, and the state, with its log of provider calls, is unchanged.
\<close>

theorem search_empty_index:
  "chunks s = [] \<Longrightarrow> search w query topK s = (Inr [], s)"
  by (simp add: search_def)

theorem search_empty_index_witness:
  "chunks emptyState = []
   \<and> search exampleWorld (utf16 ''hello'') None emptyState = (Inr [], emptyState)"
  using search_empty_index [of emptyState exampleWorld "utf16 ''hello''" None]
  by (simp add: emptyState_def)


text \<open>
  Claim C7: when the provider call for the query rejects or resolves without a vector,
  search returns the empty list as an ordinary result, not an exception, and the chunks,
  the documents, the initialized flag and the storage are as before.
\<close>

theorem search_embedding_failure:
  assumes "\<not> getAIThrows w"
    and "embedContent w (length (embedLog s)) query = Rejected
       \<or> embedContent w (length (embedLog s)) query = Resolved None"
  shows "fst (search w query topK s) = Inr []
     \<and> chunks (snd (search w query topK s)) = chunks s
     \<and> documents (snd (search w query topK s)) = documents s
     \<and> initialized (snd (search w query topK s)) = initialized s
     \<and> localStorage (snd (search w query topK s)) = localStorage s"
  using assms by (auto simp: search_def Let_def)

theorem search_embedding_failure_witness:
  "\<not> getAIThrows failingWorld
   \<and> embedContent failingWorld (length (embedLog twoDocState)) (utf16 ''q'') = Rejected
   \<and> fst (search failingWorld (utf16 ''q'') None twoDocState) = Inr []
   \<and> chunks (snd (search failingWorld (utf16 ''q'') None twoDocState)) = [chunkA, chunkB]"
  using search_embedding_failure [of failingWorld twoDocState "utf16 ''q''" None]
  by (simp add: failingWorld_def exampleWorld_def twoDocState_def)


text \<open>
  Claim C5: removeDocument with the id of a stored document keeps exactly the documents
  of other ids and exactly the chunks whose sourceName differs from the name of that
  document; with an unknown id it leaves the whole state unchanged.
\<close>

theorem removeDocument_scope:
  "(\<forall>doc. find (\<lambda>d. doc_id d = i) (documents s) = Some doc \<longrightarrow>
      documents (removeDocument w i s) = filter (\<lambda>d. doc_id d \<noteq> i) (documents s)
      \<and> chunks (removeDocument w i s) = filter (\<lambda>c. sourceName c \<noteq> doc_name doc) (chunks s)
      \<and> initialized (removeDocument w i s) = initialized s)
   \<and> (find (\<lambda>d. doc_id d = i) (documents s) = None \<longrightarrow> removeDocument w i s = s)"
  by (simp add: removeDocument_def saveToStorage_index)

theorem removeDocument_scope_witness:
  "find (\<lambda>d. doc_id d = utf16 ''da'') (documents twoDocState) = Some docA
   \<and> documents (removeDocument exampleWorld (utf16 ''da'') twoDocState) = [docB]
   \<and> chunks (removeDocument exampleWorld (utf16 ''da'') twoDocState) = [chunkB]
   \<and> find (\<lambda>d. doc_id d = utf16 ''zz'') (documents twoDocState) = None
   \<and> removeDocument exampleWorld (utf16 ''zz'') twoDocState = twoDocState"
proof -
  have a: "find (\<lambda>d. doc_id d = utf16 ''da'') (documents twoDocState) = Some docA"
    by (simp add: twoDocState_def docA_def docB_def utf16_def)
  have b: "find (\<lambda>d. doc_id d = utf16 ''zz'') (documents twoDocState) = None"
    by (simp add: twoDocState_def docA_def docB_def utf16_def)
  have c: "filter (\<lambda>d. doc_id d \<noteq> utf16 ''da'') (documents twoDocState) = [docB]"
    by (simp add: twoDocState_def docA_def docB_def utf16_def)
  have d: "filter (\<lambda>c. sourceName c \<noteq> doc_name docA) (chunks twoDocState) = [chunkB]"
    by (simp add: twoDocState_def docA_def chunkA_def chunkB_def utf16_def)
  show ?thesis
    using a b c d
      removeDocument_scope [of "utf16 ''da''" twoDocState exampleWorld]
      removeDocument_scope [of "utf16 ''zz''" twoDocState exampleWorld]
    by simp
qed


lemma newRagService_index:
  "localStorage s' = localStorage s \<Longrightarrow>
     chunks (newRagService w s') = chunks (newRagService w s)
     \<and> documents (newRagService w s') = documents (newRagService w s)"
  by (simp add: newRagService_def loadFromStorage_def split: option.splits)

lemma saveToStorage_skip:
  "4500000 \<le> length (JSON_stringify w (chunks s) (documents s)) \<Longrightarrow> saveToStorage w s = s"
  by (simp add: saveToStorage_def Let_def)

lemma indexDocument_storage:
  assumes "4500000 \<le> length (JSON_stringify w (chunks (snd (indexDocument w n c s)))
                (documents (snd (indexDocument w n c s))))"
  shows "localStorage (snd (indexDocument w n c s)) = localStorage s"
proof (cases "list_ex (\<lambda>d. doc_name d = n) (documents s) \<or> getAIThrows w")
  case True
  then show ?thesis by (auto simp: indexDocument_def)
next
  case False
  let ?s0 = "s\<lparr>uuidCount := Suc (uuidCount s)\<rparr>"
  obtain ns s1 where loop: "indexLoop w n (chunkText c) 0 [] ?s0 = (ns, s1)"
    by (cases "indexLoop w n (chunkText c) 0 [] ?s0")
  let ?s2 = "s1\<lparr>chunks := chunks s1 @ ns,
       documents := documents s1 @ [\<lparr>doc_id = randomUUID w (uuidCount s), doc_name = n,
          timestamp = dateNow w, chunkCount = length ns\<rparr>]\<rparr>"
  have eq: "snd (indexDocument w n c s) = saveToStorage w ?s2"
    using False loop by (simp add: indexDocument_def Let_def)
  have "4500000 \<le> length (JSON_stringify w (chunks ?s2) (documents ?s2))"
    using assms unfolding eq by (simp add: saveToStorage_index)
  then have "saveToStorage w ?s2 = ?s2" by (rule saveToStorage_skip)
  then show ?thesis using eq indexLoop_frame [OF loop] by simp
qed

text \<open>A call that adds a document while the serialized index is over the ceiling.\<close>

lemma example_index_huge:
  "indexDocument hugeWorld (utf16 ''D'') (utf16 ''Hi. Yo'') twoDocState =
     (Inr (Some [0]),
      \<lparr>chunks = [chunkA, chunkB,
                 \<lparr>chunk_id = [1], chunk_text = utf16 ''Hi. Yo'', embedding = [Fin 1, Fin 0],
                  sourceName = utf16 ''D''\<rparr>],
       documents = [docA, docB,
                    \<lparr>doc_id = [0], doc_name = utf16 ''D'', timestamp = 0, chunkCount = 1\<rparr>],
       initialized = True, localStorage = Some (utf16 ''old''),
       embedLog = [utf16 ''Hi. Yo''], uuidCount = 2\<rparr>)"
  by (simp add: indexDocument_def Let_def twoDocState_def hugeWorld_def exampleWorld_def
      indexLoop.simps BATCH_SIZE_def embedChunk_def saveToStorage_def chunkText_def
      sentences_def matchAll.simps matchHere_def utf16_def isTerminator_def isSpace_def
      trim_def TARGET_CHUNK_SIZE_def chunkA_def docA_def docB_def)

text \<open>
  Claim C6: when the serialized index is at or above the size ceiling of 4500000, the
  write is skipped: saveToStorage changes neither the index in memory nor the storage,
  and a fresh process loads what it would have loaded before. The same holds for a whole
  indexDocument call that ends in such a save: the storage keeps the previous snapshot.
\<close>

theorem save_skipped_over_ceiling:
  "(4500000 \<le> length (JSON_stringify w (chunks s) (documents s)) \<longrightarrow>
      saveToStorage w s = s
      \<and> chunks (newRagService w' (saveToStorage w s)) = chunks (newRagService w' s)
      \<and> documents (newRagService w' (saveToStorage w s)) = documents (newRagService w' s))
   \<and> (4500000 \<le> length (JSON_stringify w (chunks (snd (indexDocument w n c s)))
                (documents (snd (indexDocument w n c s)))) \<longrightarrow>
      localStorage (snd (indexDocument w n c s)) = localStorage s
      \<and> chunks (newRagService w' (snd (indexDocument w n c s))) = chunks (newRagService w' s)
      \<and> documents (newRagService w' (snd (indexDocument w n c s))) = documents (newRagService w' s))"
  using saveToStorage_skip [of w s] indexDocument_storage [of w n c s]
    newRagService_index [of "snd (indexDocument w n c s)" s w']
  by auto

theorem save_skipped_over_ceiling_witness:
  "4500000 \<le> length (JSON_stringify hugeWorld (chunks twoDocState) (documents twoDocState))
   \<and> saveToStorage hugeWorld twoDocState = twoDocState
   \<and> chunks (saveToStorage hugeWorld twoDocState) = [chunkA, chunkB]
   \<and> chunks (newRagService exampleWorld (saveToStorage hugeWorld twoDocState)) = [chunkA]
   \<and> documents (newRagService exampleWorld (saveToStorage hugeWorld twoDocState)) = [docA]
   \<and> 4500000 \<le> length (JSON_stringify hugeWorld
         (chunks (snd (indexDocument hugeWorld (utf16 ''D'') (utf16 ''Hi. Yo'') twoDocState)))
         (documents (snd (indexDocument hugeWorld (utf16 ''D'') (utf16 ''Hi. Yo'') twoDocState))))
   \<and> length (chunks (snd (indexDocument hugeWorld (utf16 ''D'') (utf16 ''Hi. Yo'') twoDocState))) = 3
   \<and> localStorage (snd (indexDocument hugeWorld (utf16 ''D'') (utf16 ''Hi. Yo'') twoDocState))
       = Some (utf16 ''old'')
   \<and> chunks (newRagService exampleWorld
         (snd (indexDocument hugeWorld (utf16 ''D'') (utf16 ''Hi. Yo'') twoDocState))) = [chunkA]"
proof -
  have a: "4500000 \<le> length (JSON_stringify hugeWorld (chunks twoDocState) (documents twoDocState))"
    by (simp add: hugeWorld_def exampleWorld_def)
  have b: "chunks twoDocState = [chunkA, chunkB]"
    "localStorage twoDocState = Some (utf16 ''old'')"
    by (simp_all add: twoDocState_def)
  have c: "chunks (newRagService exampleWorld twoDocState) = [chunkA]
      \<and> documents (newRagService exampleWorld twoDocState) = [docA]"
    by (simp add: newRagService_def loadFromStorage_def twoDocState_def exampleWorld_def utf16_def)
  have d: "4500000 \<le> length (JSON_stringify hugeWorld
         (chunks (snd (indexDocument hugeWorld (utf16 ''D'') (utf16 ''Hi. Yo'') twoDocState)))
         (documents (snd (indexDocument hugeWorld (utf16 ''D'') (utf16 ''Hi. Yo'') twoDocState))))"
    by (simp add: hugeWorld_def exampleWorld_def)
  have e: "length (chunks (snd (indexDocument hugeWorld (utf16 ''D'') (utf16 ''Hi. Yo'') twoDocState))) = 3"
    by (simp add: example_index_huge)
  show ?thesis
    using a b c d e
      save_skipped_over_ceiling [of hugeWorld twoDocState exampleWorld "utf16 ''D''" "utf16 ''Hi. Yo''"]
    by simp
qed

lemma init_sets_flag: "initialized (init w s)"
  by (simp add: init_def Let_def)

lemma init_noop: "initialized s \<Longrightarrow> init w s = s"
  by (simp add: init_def)

lemma indexDocument_initialized: "initialized (snd (indexDocument w n c s)) = initialized s"
proof (cases "list_ex (\<lambda>d. doc_name d = n) (documents s) \<or> getAIThrows w")
  case True
  then show ?thesis by (auto simp: indexDocument_def)
next
  case False
  let ?s0 = "s\<lparr>uuidCount := Suc (uuidCount s)\<rparr>"
  obtain ns s1 where loop: "indexLoop w n (chunkText c) 0 [] ?s0 = (ns, s1)"
    by (cases "indexLoop w n (chunkText c) 0 [] ?s0")
  have "initialized s1 = initialized s" using indexLoop_frame [OF loop] by simp
  then show ?thesis using False loop
    by (simp add: indexDocument_def Let_def saveToStorage_index)
qed

lemma search_initialized: "initialized (snd (search w query topK s)) = initialized s"
  by (simp add: search_def Let_def split: embed_response.splits option.splits)

lemma removeDocument_initialized: "initialized (removeDocument w i s) = initialized s"
  by (simp add: removeDocument_def saveToStorage_index split: option.splits)

lemma applyOperation_initialized:
  "\<not> isClear op \<Longrightarrow> initialized s \<Longrightarrow> initialized (applyOperation op s)"
  by (cases op)
    (simp_all add: init_sets_flag indexDocument_initialized search_initialized
      removeDocument_initialized)

lemma run_initialized:
  "\<forall>op\<in>set ops. \<not> isClear op \<Longrightarrow> initialized s \<Longrightarrow> initialized (run ops s)"
  by (induction ops arbitrary: s) (simp_all add: applyOperation_initialized)

text \<open>
  Claim C10: init sets the initialized flag whatever happens to the system document, and
  on a state with the flag set init is the identity, for any surroundings. indexDocument,
  search and removeDocument keep the flag, so after one init every later init in a
  sequence of operations without clear is the identity and never calls the indexer; this
  is so even when the client could not be built and no system document exists. clear
  resets the flag, and the next init calls the indexer again.
\<close>

theorem init_runs_once:
  "initialized (init w s)
   \<and> (initialized s \<longrightarrow> init w s = s)
   \<and> init w' (init w s) = init w s
   \<and> initialized (snd (indexDocument w n c s)) = initialized s
   \<and> initialized (snd (search w query topK s)) = initialized s
   \<and> initialized (removeDocument w i s) = initialized s
   \<and> ((\<forall>op\<in>set ops. \<not> isClear op) \<longrightarrow>
        initialized (run ops (init w s))
        \<and> init w' (run ops (init w s)) = run ops (init w s))
   \<and> (\<not> initialized s \<and> getAIThrows w
        \<and> find (\<lambda>d. doc_name d = SYSTEM_CORE_MEMORY) (documents s) = None \<longrightarrow>
      find (\<lambda>d. doc_name d = SYSTEM_CORE_MEMORY) (documents (init w s)) = None)
   \<and> \<not> initialized (clear s)
   \<and> init w (clear s) =
       (snd (indexDocument w SYSTEM_CORE_MEMORY (SYSTEM_KNOWLEDGE_BASE w) (clear s)))
         \<lparr>initialized := True\<rparr>"
proof -
  have a: "initialized (init w s)" by (rule init_sets_flag)
  have a': "initialized s \<longrightarrow> init w s = s" by (simp add: init_noop)
  have b: "init w' (init w s) = init w s" using a by (rule init_noop)
  have r: "(\<forall>op\<in>set ops. \<not> isClear op) \<longrightarrow>
        initialized (run ops (init w s))
        \<and> init w' (run ops (init w s)) = run ops (init w s)"
  proof
    assume "\<forall>op\<in>set ops. \<not> isClear op"
    then have "initialized (run ops (init w s))" using a by (rule run_initialized)
    then show "initialized (run ops (init w s))
        \<and> init w' (run ops (init w s)) = run ops (init w s)"
      by (simp add: init_noop)
  qed
  have c: "\<not> initialized s \<and> getAIThrows w
        \<and> find (\<lambda>d. doc_name d = SYSTEM_CORE_MEMORY) (documents s) = None \<longrightarrow>
      find (\<lambda>d. doc_name d = SYSTEM_CORE_MEMORY) (documents (init w s)) = None"
    by (auto simp: init_def Let_def indexDocument_def)
  have d: "\<not> initialized (clear s)" by (simp add: clear_def)
  have e: "init w (clear s) =
       (snd (indexDocument w SYSTEM_CORE_MEMORY (SYSTEM_KNOWLEDGE_BASE w) (clear s)))
         \<lparr>initialized := True\<rparr>"
    by (simp add: init_def clear_def Let_def)
  from a a' b r c d e indexDocument_initialized [of w n c s]
    search_initialized [of w query topK s] removeDocument_initialized [of w i s]
  show ?thesis by blast
qed

text \<open>The operations after the bootstrap, evaluated on the bootstrapped empty index.\<close>

lemma example_later:
  "run laterOperations (emptyState\<lparr>initialized := True\<rparr>) =
     \<lparr>chunks = [\<lparr>chunk_id = [1], chunk_text = utf16 ''Hi. Yo'', embedding = [Fin 1, Fin 0],
                  sourceName = utf16 ''D''\<rparr>],
       documents = [\<lparr>doc_id = [0], doc_name = utf16 ''D'', timestamp = 0, chunkCount = 1\<rparr>],
       initialized = True, localStorage = Some [0x78, 0x78],
       embedLog = [utf16 ''Hi. Yo'', utf16 ''q''], uuidCount = 2\<rparr>"
  by (simp add: laterOperations_def indexDocument_def Let_def emptyState_def exampleWorld_def
      indexLoop.simps BATCH_SIZE_def embedChunk_def saveToStorage_def chunkText_def
      sentences_def matchAll.simps matchHere_def utf16_def isTerminator_def isSpace_def
      trim_def TARGET_CHUNK_SIZE_def chunkA_def docA_def search_def removeDocument_def)

theorem init_runs_once_witness:
  "\<not> initialized emptyState \<and> getAIThrows offlineWorld
   \<and> find (\<lambda>d. doc_name d = SYSTEM_CORE_MEMORY) (documents emptyState) = None
   \<and> initialized (init offlineWorld emptyState)
   \<and> find (\<lambda>d. doc_name d = SYSTEM_CORE_MEMORY) (documents (init offlineWorld emptyState)) = None
   \<and> init exampleWorld (init offlineWorld emptyState) = init offlineWorld emptyState
   \<and> documents (init exampleWorld (init offlineWorld emptyState)) = []
   \<and> documents (snd (indexDocument exampleWorld SYSTEM_CORE_MEMORY
         (SYSTEM_KNOWLEDGE_BASE exampleWorld) (init offlineWorld emptyState))) \<noteq> []
   \<and> list_all (\<lambda>op. \<not> isClear op) laterOperations
   \<and> length (documents (run laterOperations (init offlineWorld emptyState))) = 1
   \<and> init exampleWorld (run laterOperations (init offlineWorld emptyState))
       = run laterOperations (init offlineWorld emptyState)"
proof -
  have a: "\<not> initialized emptyState \<and> getAIThrows offlineWorld
     \<and> find (\<lambda>d. doc_name d = SYSTEM_CORE_MEMORY) (documents emptyState) = None"
    by (simp add: emptyState_def offlineWorld_def)
  have b: "init offlineWorld emptyState = emptyState\<lparr>initialized := True\<rparr>"
    by (simp add: init_def Let_def indexDocument_def emptyState_def offlineWorld_def)
  have "\<not> list_ex (\<lambda>d. doc_name d = SYSTEM_CORE_MEMORY)
        (documents (emptyState\<lparr>initialized := True\<rparr>))"
    and "\<not> getAIThrows exampleWorld"
    by (simp_all add: emptyState_def exampleWorld_def)
  from indexDocument_new [OF this, of "SYSTEM_KNOWLEDGE_BASE exampleWorld"]
  have c: "documents (snd (indexDocument exampleWorld SYSTEM_CORE_MEMORY
         (SYSTEM_KNOWLEDGE_BASE exampleWorld) (emptyState\<lparr>initialized := True\<rparr>))) \<noteq> []"
    by auto
  have d: "documents (emptyState\<lparr>initialized := True\<rparr>) = []" by (simp add: emptyState_def)
  have e: "list_all (\<lambda>op. \<not> isClear op) laterOperations"
    by (simp add: laterOperations_def)
  have f: "length (documents (run laterOperations (emptyState\<lparr>initialized := True\<rparr>))) = 1"
    by (simp add: example_later)
  show ?thesis
    using a c d e f
      init_runs_once [of offlineWorld emptyState exampleWorld _ _ _ _ _ laterOperations]
    unfolding b by (simp add: list_all_iff)
qed


section \<open>Properties of the numbers\<close>

lemma roundHalfEven_ge_floor: "\<lfloor>x\<rfloor> \<le> roundHalfEven x"
  by (simp add: roundHalfEven_def Let_def)

lemma floorLog2_lower:
  assumes "0 < x"
  shows "2 powi (floorLog2 x) \<le> x"
proof -
  obtain p q where pq: "quotient_of x = (p, q)" by (cases "quotient_of x")
  have q: "0 < q" using pq by (rule quotient_of_denom_pos)
  have x: "x = of_int p / of_int q" using pq by (rule quotient_of_div)
  have p: "0 < p" using assms q x by (simp add: zero_less_divide_iff)
  let ?d = "bitlen p - bitlen q"
  show ?thesis
  proof (cases "x < 2 powi ?d")
    case False
    then show ?thesis using pq by (simp add: floorLog2_def)
  next
    case True
    have bp: "1 \<le> bitlen p" using p by (simp add: bitlen_alt_def)
    have bq: "0 \<le> bitlen q" by (rule bitlen_nonneg)
    have "(2::int) ^ nat (bitlen p - 1) \<le> p" using bitlen_bounds [OF p] by simp
    then have "(of_int ((2::int) ^ nat (bitlen p - 1)) :: rat) \<le> of_int p"
      by (simp only: of_int_le_iff)
    then have lo: "(2::rat) powi (bitlen p - 1) \<le> of_int p"
      using bp by (simp add: power_int_def)
    have "q < 2 ^ nat (bitlen q)" using bitlen_bounds [OF q] by simp
    then have "(of_int q :: rat) < of_int ((2::int) ^ nat (bitlen q))"
      by (simp only: of_int_less_iff)
    then have hi: "(of_int q :: rat) \<le> 2 powi (bitlen q)"
      using bq by (simp add: power_int_def)
    have "(2::rat) powi (?d - 1) * of_int q \<le> 2 powi (?d - 1) * 2 powi (bitlen q)"
      using hi by (intro mult_left_mono) simp_all
    also have "\<dots> = 2 powi (bitlen p - 1)"
      by (simp add: power_int_add [symmetric])
    also have "\<dots> \<le> of_int p" by (rule lo)
    finally have "(2::rat) powi (?d - 1) \<le> of_int p / of_int q"
      using q by (simp add: pos_le_divide_eq)
    then show ?thesis using True pq x by (simp add: floorLog2_def)
  qed
qed

lemma floorLog2_upper:
  assumes "0 < x"
  shows "x < 2 powi (floorLog2 x + 1)"
proof -
  obtain p q where pq: "quotient_of x = (p, q)" by (cases "quotient_of x")
  have q: "0 < q" using pq by (rule quotient_of_denom_pos)
  have x: "x = of_int p / of_int q" using pq by (rule quotient_of_div)
  have p: "0 < p" using assms q x by (simp add: zero_less_divide_iff)
  let ?d = "bitlen p - bitlen q"
  show ?thesis
  proof (cases "x < 2 powi ?d")
    case True
    then show ?thesis using pq by (simp add: floorLog2_def)
  next
    case False
    have bp: "0 \<le> bitlen p" by (rule bitlen_nonneg)
    have bq: "1 \<le> bitlen q" using q by (simp add: bitlen_alt_def)
    have "p < 2 ^ nat (bitlen p)" using bitlen_bounds [OF p] by simp
    then have "(of_int p :: rat) < of_int ((2::int) ^ nat (bitlen p))"
      by (simp only: of_int_less_iff)
    then have hi: "(of_int p :: rat) < 2 powi (bitlen p)"
      using bp by (simp add: power_int_def)
    have "(2::int) ^ nat (bitlen q - 1) \<le> q" using bitlen_bounds [OF q] by simp
    then have "(of_int ((2::int) ^ nat (bitlen q - 1)) :: rat) \<le> of_int q"
      by (simp only: of_int_le_iff)
    then have lo: "(2::rat) powi (bitlen q - 1) \<le> of_int q"
      using bq by (simp add: power_int_def)
    have "(of_int p :: rat) < 2 powi (bitlen p)" by (rule hi)
    also have "\<dots> = 2 powi (?d + 1) * 2 powi (bitlen q - 1)"
      by (simp add: power_int_add [symmetric])
    also have "\<dots> \<le> 2 powi (?d + 1) * of_int q"
      using lo by (intro mult_left_mono) simp_all
    finally have "of_int p / of_int q < (2::rat) powi (?d + 1)"
      using q by (simp add: pos_divide_less_eq)
    then show ?thesis using False pq x by (simp add: floorLog2_def)
  qed
qed

lemma roundPositive_not_NaN: "roundPositive x \<noteq> NaN"
  by (simp add: roundPositive_def Let_def)

lemma roundDouble_not_NaN: "roundDouble x \<noteq> NaN"
proof -
  have "jsNeg (roundPositive (- x)) \<noteq> NaN"
    using roundPositive_not_NaN [of "- x"] by (cases "roundPositive (- x)") simp_all
  then show ?thesis by (simp add: roundDouble_def roundPositive_not_NaN)
qed

lemma onGrid_scaled:
  assumes "- 1074 \<le> e"
  shows "onGrid (of_int m * 2 powi e)"
proof -
  have eq: "e + 1074 + (- 1074) = e" by simp
  have "(2::rat) powi (e + 1074 + (- 1074)) = 2 powi (e + 1074) * 2 powi (- 1074)"
    by (rule power_int_add) simp
  then have split: "(2::rat) powi e = 2 powi (e + 1074) * 2 powi (- 1074)"
    unfolding eq .
  have nn: "(2::rat) powi (e + 1074) = of_int (2 ^ nat (e + 1074))"
    using assms by (simp add: power_int_def)
  have "of_int m * (2::rat) powi e = of_int m * (2 powi (e + 1074) * 2 powi (- 1074))"
    by (simp only: split [symmetric])
  also have "\<dots> = of_int (m * 2 ^ nat (e + 1074)) * 2 powi (- 1074)"
    unfolding nn by (simp only: of_int_mult mult.assoc)
  finally show ?thesis unfolding onGrid_def by blast
qed

lemma roundPositive_onGrid: "roundPositive x = Fin v \<Longrightarrow> onGrid v"
  by (auto simp: roundPositive_def Let_def onGrid_scaled split: if_splits)

lemma onGrid_minus: "onGrid v \<Longrightarrow> onGrid (- v)"
  unfolding onGrid_def
proof -
  assume "\<exists>n::int. v = of_int n * 2 powi (- 1074)"
  then obtain n :: int where "v = of_int n * 2 powi (- 1074)" by blast
  then have "- v = of_int (- n) * 2 powi (- 1074)" by simp
  then show "\<exists>n::int. - v = of_int n * 2 powi (- 1074)" by blast
qed

lemma onGrid_add: "onGrid a \<Longrightarrow> onGrid b \<Longrightarrow> onGrid (a + b)"
  unfolding onGrid_def
proof -
  assume "\<exists>n::int. a = of_int n * 2 powi (- 1074)" "\<exists>n::int. b = of_int n * 2 powi (- 1074)"
  then obtain n m :: int where "a = of_int n * 2 powi (- 1074)" "b = of_int m * 2 powi (- 1074)"
    by blast
  then have "a + b = of_int (n + m) * 2 powi (- 1074)" by (simp add: algebra_simps)
  then show "\<exists>n::int. a + b = of_int n * 2 powi (- 1074)" by blast
qed

lemma onGrid_zero: "onGrid 0"
  unfolding onGrid_def by (rule exI [of _ 0]) simp

lemma roundDouble_onGrid: "roundDouble x = Fin v \<Longrightarrow> onGrid v"
proof (cases "x = 0")
  case True
  assume "roundDouble x = Fin v"
  then show ?thesis using True by (simp add: roundDouble_def onGrid_zero)
next
  case False
  assume r: "roundDouble x = Fin v"
  show ?thesis
  proof (cases "0 < x")
    case True
    then show ?thesis using r False by (simp add: roundDouble_def roundPositive_onGrid)
  next
    case neg: False
    then have "jsNeg (roundPositive (- x)) = Fin v" using r False by (simp add: roundDouble_def)
    then have "roundPositive (- x) = Fin (- v)"
      by (cases "roundPositive (- x)") simp_all
    then have "onGrid (- v)" by (rule roundPositive_onGrid)
    then show ?thesis using onGrid_minus [of "- v"] by simp
  qed
qed

lemma onGrid_pos_ge: 
  assumes "onGrid x" and "0 < x"
  shows "2 powi (- 1074) \<le> x"
proof -
  obtain n :: int where n: "x = of_int n * 2 powi (- 1074)" using assms(1) onGrid_def by blast
  have "0 < (of_int n :: rat)" using assms(2) n by (simp add: zero_less_mult_iff)
  then have "1 \<le> n" by simp
  then have "(1::rat) \<le> of_int n" by simp
  then have "1 * (2::rat) powi (- 1074) \<le> of_int n * 2 powi (- 1074)"
    by (intro mult_right_mono) simp_all
  then show ?thesis using n by simp
qed

lemma roundPositive_positive:
  assumes "2 powi (- 1074) \<le> x"
  shows "jsLess (Fin 0) (roundPositive x)"
proof -
  have pos: "0 < x" using assms by (rule less_le_trans [rotated]) simp
  let ?e = "max (floorLog2 x - 52) (- 1074)"
  have "(2::rat) powi (floorLog2 x - 52) \<le> 2 powi (floorLog2 x)"
    by (intro power_int_increasing) simp_all
  also have "\<dots> \<le> x" using pos by (rule floorLog2_lower)
  finally have "(2::rat) powi ?e \<le> x" using assms by (simp add: max_def)
  then have "1 \<le> x / 2 powi ?e" by (simp add: pos_le_divide_eq)
  then have "1 \<le> \<lfloor>x / 2 powi ?e\<rfloor>" by simp
  then have m: "1 \<le> roundHalfEven (x / 2 powi ?e)"
    using roundHalfEven_ge_floor [of "x / 2 powi ?e"] by linarith
  then have "0 < (of_int (roundHalfEven (x / 2 powi ?e)) :: rat) * 2 powi ?e"
    by (intro mult_pos_pos) simp_all
  then show ?thesis by (simp add: roundPositive_def Let_def)
qed

lemma roundDouble_sign:
  assumes "onGrid x"
  shows "(0 < x \<longrightarrow> jsLess (Fin 0) (roundDouble x) \<and> \<not> jsLess (roundDouble x) (Fin 0))
       \<and> (x < 0 \<longrightarrow> jsLess (roundDouble x) (Fin 0) \<and> \<not> jsLess (Fin 0) (roundDouble x))
       \<and> (x = 0 \<longrightarrow> roundDouble x = Fin 0)"
proof (intro conjI impI)
  assume "x = 0"
  then show "roundDouble x = Fin 0" by (simp add: roundDouble_def)
next
  assume pos: "0 < x"
  from roundPositive_positive [OF onGrid_pos_ge [OF assms pos]]
  have "jsLess (Fin 0) (roundPositive x)" .
  then have "jsLess (Fin 0) (roundPositive x) \<and> \<not> jsLess (roundPositive x) (Fin 0)"
    by (cases "roundPositive x") simp_all
  then show "jsLess (Fin 0) (roundDouble x)" "\<not> jsLess (roundDouble x) (Fin 0)"
    using pos by (simp_all add: roundDouble_def)
next
  assume neg: "x < 0"
  then have pos: "0 < - x" by simp
  from roundPositive_positive [OF onGrid_pos_ge [OF onGrid_minus [OF assms] pos]]
  have "jsLess (Fin 0) (roundPositive (- x))" .
  then have "jsLess (jsNeg (roundPositive (- x))) (Fin 0)
      \<and> \<not> jsLess (Fin 0) (jsNeg (roundPositive (- x)))"
    by (cases "roundPositive (- x)") simp_all
  then show "jsLess (roundDouble x) (Fin 0)" "\<not> jsLess (Fin 0) (roundDouble x)"
    using neg by (simp_all add: roundDouble_def)
qed

lemma roundHalfEven_of_int: "roundHalfEven (of_int n) = n"
  by (simp add: roundHalfEven_def)

lemma roundPositive_exact:
  assumes m: "0 < m" "m < 2 ^ 53" and e: "- 1074 \<le> e" "e \<le> 971"
  shows "roundPositive (of_int m * 2 powi e) = Fin (of_int m * 2 powi e)"
proof -
  let ?x = "of_int m * (2::rat) powi e"
  have pos: "0 < ?x" using m(1) by (intro mult_pos_pos) simp_all
  have "(of_int m :: rat) < of_int (2 ^ 53)" using m(2) by (simp only: of_int_less_iff)
  then have mlt: "(of_int m :: rat) < 2 powi 53" by simp
  have "?x < 2 powi 53 * 2 powi e"
    using mlt by (intro mult_strict_right_mono) simp_all
  also have "\<dots> = 2 powi (53 + e)" by (simp add: power_int_add)
  finally have hi: "?x < 2 powi (53 + e)" .
  have "(2::rat) powi (floorLog2 ?x) \<le> ?x" using pos by (rule floorLog2_lower)
  also note hi
  finally have lt: "(2::rat) powi (floorLog2 ?x) < 2 powi (53 + e)" .
  have "floorLog2 ?x < 53 + e"
  proof (rule ccontr)
    assume "\<not> floorLog2 ?x < 53 + e"
    then have "53 + e \<le> floorLog2 ?x" by simp
    then have "(2::rat) powi (53 + e) \<le> 2 powi (floorLog2 ?x)"
      by (intro power_int_increasing) simp_all
    then show False using lt by simp
  qed
  then have le: "max (floorLog2 ?x - 52) (- 1074) \<le> e" using e(1) by simp
  define e' where "e' = max (floorLog2 ?x - 52) (- 1074)"
  have e': "e' \<le> e" using le by (simp add: e'_def)
  have "(2::rat) powi e = 2 powi (e - e' + e')" by simp
  also have "\<dots> = 2 powi (e - e') * 2 powi e'" by (rule power_int_add) simp
  finally have split: "(2::rat) powi e = 2 powi (e - e') * 2 powi e'" .
  have nn: "(2::rat) powi (e - e') = of_int (2 ^ nat (e - e'))"
    using e' by (simp add: power_int_def)
  have q: "?x / 2 powi e' = of_int (m * 2 ^ nat (e - e'))"
    unfolding split nn by simp
  have r: "roundHalfEven (?x / 2 powi e') = m * 2 ^ nat (e - e')"
    unfolding q by (rule roundHalfEven_of_int)
  have same: "of_int (m * 2 ^ nat (e - e')) * (2::rat) powi e' = ?x"
    unfolding split nn by (simp only: of_int_mult mult.assoc)
  have "(2::rat) powi (53 + e) \<le> 2 powi 1024"
    using e(2) by (intro power_int_increasing) simp_all
  then have no: "\<not> (2::rat) powi 1024 \<le> ?x" using hi by linarith
  show ?thesis
    unfolding roundPositive_def Let_def e'_def [symmetric] r same
    using no by (simp only: if_False)
qed

lemma roundDouble_exact:
  assumes m: "\<bar>m\<bar> < 2 ^ 53" and e: "- 1074 \<le> e" "e \<le> 971"
  shows "roundDouble (of_int m * 2 powi e) = Fin (of_int m * 2 powi e)"
proof -
  consider "m = 0" | "0 < m" | "m < 0" by linarith
  then show ?thesis
  proof cases
    case 1
    then show ?thesis by (simp add: roundDouble_def)
  next
    case 2
    then have pos: "0 < of_int m * (2::rat) powi e" by (intro mult_pos_pos) simp_all
    then have ne: "of_int m * (2::rat) powi e \<noteq> 0" by linarith
    have "m < 2 ^ 53" using m 2 by simp
    from roundPositive_exact [OF 2 this e] show ?thesis
      unfolding roundDouble_def using pos ne by (simp only: if_True if_False)
  next
    case 3
    then have p: "0 < - m" by simp
    have lt: "- m < 2 ^ 53" using m 3 by simp
    have pos: "0 < of_int (- m) * (2::rat) powi e" using p by (intro mult_pos_pos) simp_all
    have eq: "- (of_int m * (2::rat) powi e) = of_int (- m) * 2 powi e" by simp
    have neg: "\<not> 0 < of_int m * (2::rat) powi e" "of_int m * (2::rat) powi e \<noteq> 0"
      using pos unfolding eq [symmetric] by linarith+
    have "jsNeg (roundPositive (of_int (- m) * 2 powi e)) = Fin (of_int m * 2 powi e)"
      unfolding roundPositive_exact [OF p lt e] unfolding eq [symmetric] by simp
    then show ?thesis
      unfolding roundDouble_def eq using neg by (simp only: if_False)
  qed
qed

lemma roundDouble_dyadic:
  assumes "\<bar>m\<bar> < 2 ^ 53" and "k \<le> 1074"
  shows "roundDouble (of_int m / 2 ^ k) = Fin (of_int m / 2 ^ k)"
proof -
  have "(2::rat) powi (- int k) = 1 / 2 ^ k"
    by (simp add: power_int_minus field_simps)
  then have eq: "of_int m / (2::rat) ^ k = of_int m * 2 powi (- int k)" by simp
  show ?thesis
    unfolding eq using assms by (intro roundDouble_exact) simp_all
qed

lemma roundPositive_overflow:
  assumes "2 powi 1024 \<le> x"
  shows "roundPositive x = PosInf"
proof -
  have pos: "0 < x" using assms by (rule less_le_trans [rotated]) simp
  define e where "e = max (floorLog2 x - 52) (- 1074)"
  have "(2::rat) powi 1024 \<le> x" by (rule assms)
  also have "x < 2 powi (floorLog2 x + 1)" using pos by (rule floorLog2_upper)
  finally have lt: "(2::rat) powi 1024 < 2 powi (floorLog2 x + 1)" .
  have fl: "1024 \<le> floorLog2 x"
  proof (rule ccontr)
    assume "\<not> 1024 \<le> floorLog2 x"
    then have "floorLog2 x + 1 \<le> 1024" by simp
    then have "(2::rat) powi (floorLog2 x + 1) \<le> 2 powi 1024"
      by (intro power_int_increasing) simp_all
    then show False using lt by linarith
  qed
  then have e: "e = floorLog2 x - 52" by (simp add: e_def)
  have "(2::rat) powi (52 + e) = 2 powi 52 * 2 powi e" by (rule power_int_add) simp
  then have split: "(2::rat) powi (floorLog2 x) = 2 powi 52 * 2 powi e" by (simp add: e)
  have "(2::rat) powi 52 * 2 powi e \<le> x" using floorLog2_lower [OF pos] by (simp only: split)
  then have "(2::rat) powi 52 \<le> x / 2 powi e" by (simp add: pos_le_divide_eq)
  then have "(of_int (2 ^ 52) :: rat) \<le> x / 2 powi e" by simp
  then have "2 ^ 52 \<le> \<lfloor>x / 2 powi e\<rfloor>" by (simp only: le_floor_iff)
  then have m: "2 ^ 52 \<le> roundHalfEven (x / 2 powi e)"
    using roundHalfEven_ge_floor [of "x / 2 powi e"] by linarith
  then have "(of_int (2 ^ 52) :: rat) \<le> of_int (roundHalfEven (x / 2 powi e))"
    by (simp only: of_int_le_iff)
  then have "(2::rat) powi 52 \<le> of_int (roundHalfEven (x / 2 powi e))" by simp
  then have "(2::rat) powi 52 * 2 powi e \<le> of_int (roundHalfEven (x / 2 powi e)) * 2 powi e"
    by (intro mult_right_mono) simp_all
  then have ge: "(2::rat) powi (floorLog2 x) \<le> of_int (roundHalfEven (x / 2 powi e)) * 2 powi e"
    by (simp only: split)
  have "(2::rat) powi 1024 \<le> 2 powi (floorLog2 x)"
    using fl by (intro power_int_increasing) simp_all
  then have "(2::rat) powi 1024 \<le> of_int (roundHalfEven (x / 2 powi e)) * 2 powi e"
    using ge by linarith
  then show ?thesis
    unfolding roundPositive_def Let_def e_def [symmetric] by (simp only: if_True)
qed

lemma roundDouble_overflow:
  "2 powi 1024 \<le> x \<Longrightarrow> roundDouble x = PosInf"
  "2 powi 1024 \<le> x \<Longrightarrow> roundDouble (- x) = NegInf"
proof -
  assume a: "2 powi 1024 \<le> x"
  have pos: "0 < x" using a by (rule less_le_trans [rotated]) simp
  then have c: "x \<noteq> 0" "- x \<noteq> 0" "\<not> 0 < - x" by simp_all
  show "roundDouble x = PosInf"
    unfolding roundDouble_def using pos c(1) roundPositive_overflow [OF a]
    by (simp only: if_True if_False)
  show "roundDouble (- x) = NegInf"
    unfolding roundDouble_def using c roundPositive_overflow [OF a]
    by (simp only: if_False minus_minus jsNeg.simps)
qed


lemma roundDouble_wellRounded: "wellRounded (roundDouble x)"
  by (cases "roundDouble x") (simp_all add: wellRounded_def roundDouble_onGrid)

lemma jsAdd_wellRounded: "wellRounded (jsAdd a b)"
  by (cases a; cases b) (simp_all add: roundDouble_wellRounded, simp_all add: wellRounded_def)

lemma jsLess_irrefl: "\<not> jsLess a a"
  by (cases a) simp_all

lemma jsLess_trans: "jsLess a b \<Longrightarrow> jsLess b c \<Longrightarrow> jsLess a c"
  by (cases a; cases b; cases c) simp_all

lemma jsLess_asym: "jsLess a b \<Longrightarrow> \<not> jsLess b a"
  by (cases a; cases b) simp_all

lemma jsLess_linear: "a \<noteq> NaN \<Longrightarrow> b \<noteq> NaN \<Longrightarrow> jsLess a b \<or> a = b \<or> jsLess b a"
  by (cases a; cases b) auto

lemma jsSub_sign:
  assumes "wellRounded x" and "wellRounded y" and "x \<noteq> NaN" and "y \<noteq> NaN"
  shows "jsGreater (jsSub y x) (Fin 0) = jsLess x y"
    and "jsLess (jsSub y x) (Fin 0) = jsLess y x"
proof -
  have "jsGreater (jsSub y x) (Fin 0) = jsLess x y \<and> jsLess (jsSub y x) (Fin 0) = jsLess y x"
  proof (cases x)
    case NaN
    then show ?thesis using assms(3) by simp
  next
    case NegInf
    then show ?thesis using assms(4) by (cases y) (simp_all add: jsSub_def jsGreater_def)
  next
    case PosInf
    then show ?thesis using assms(4) by (cases y) (simp_all add: jsSub_def jsGreater_def)
  next
    case (Fin a)
    show ?thesis
    proof (cases y)
      case NaN
      then show ?thesis using assms(4) by simp
    next
      case NegInf
      then show ?thesis using Fin by (simp add: jsSub_def jsGreater_def)
    next
      case PosInf
      then show ?thesis using Fin by (simp add: jsSub_def jsGreater_def)
    next
      case b: (Fin b)
      have "onGrid a" "onGrid b" using assms(1,2) Fin b by (simp_all add: wellRounded_def)
      then have g: "onGrid (b + - a)" by (intro onGrid_add onGrid_minus)
      have s: "jsSub y x = roundDouble (b + - a)" using Fin b by (simp add: jsSub_def)
      from roundDouble_sign [OF g] show ?thesis
        unfolding s jsGreater_def using Fin b
        by (cases "a < b"; cases "b < a") auto
    qed
  qed
  then show "jsGreater (jsSub y x) (Fin 0) = jsLess x y"
    and "jsLess (jsSub y x) (Fin 0) = jsLess y x" by simp_all
qed

section \<open>Properties of sorting\<close>

lemma not_before_and_after: "\<not> (comesBefore f a b \<and> comesAfter f a b)"
  unfolding comesBefore_def comesAfter_def jsGreater_def by (auto dest: jsLess_asym)

lemma consistent_refl: "consistentComparator f S \<Longrightarrow> a \<in> S \<Longrightarrow> tiedWith f a a"
  unfolding consistentComparator_def by blast

lemma consistent_sym:
  "consistentComparator f S \<Longrightarrow> a \<in> S \<Longrightarrow> b \<in> S \<Longrightarrow> tiedWith f a b \<Longrightarrow> tiedWith f b a"
  unfolding consistentComparator_def by blast

lemma consistent_tied_trans:
  "consistentComparator f S \<Longrightarrow> a \<in> S \<Longrightarrow> b \<in> S \<Longrightarrow> c \<in> S \<Longrightarrow>
     tiedWith f a b \<Longrightarrow> tiedWith f b c \<Longrightarrow> tiedWith f a c"
  unfolding consistentComparator_def by blast

lemma consistent_before_trans:
  "consistentComparator f S \<Longrightarrow> a \<in> S \<Longrightarrow> b \<in> S \<Longrightarrow> c \<in> S \<Longrightarrow>
     comesBefore f a b \<Longrightarrow> comesBefore f b c \<Longrightarrow> comesBefore f a c"
  unfolding consistentComparator_def by blast

lemma consistent_after_trans:
  "consistentComparator f S \<Longrightarrow> a \<in> S \<Longrightarrow> b \<in> S \<Longrightarrow> c \<in> S \<Longrightarrow>
     comesAfter f a b \<Longrightarrow> comesAfter f b c \<Longrightarrow> comesAfter f a c"
  unfolding consistentComparator_def by blast

lemma consistent_after_before:
  assumes c: "consistentComparator f S" and a: "a \<in> S" and b: "b \<in> S"
    and ab: "comesAfter f a b"
  shows "comesBefore f b a"
proof (rule ccontr)
  assume nb: "\<not> comesBefore f b a"
  show False
  proof (cases "comesAfter f b a")
    case True
    from consistent_after_trans [OF c a b a ab True] have "comesAfter f a a" .
    then show False using consistent_refl [OF c a] by (simp add: tiedWith_def)
  next
    case False
    then have "tiedWith f b a" using nb by (simp add: tiedWith_def)
    from consistent_sym [OF c b a this] show False using ab by (simp add: tiedWith_def)
  qed
qed

lemma consistent_before_after:
  assumes c: "consistentComparator f S" and a: "a \<in> S" and b: "b \<in> S"
    and ab: "comesBefore f a b"
  shows "comesAfter f b a"
proof (rule ccontr)
  assume na: "\<not> comesAfter f b a"
  show False
  proof (cases "comesBefore f b a")
    case True
    from consistent_before_trans [OF c a b a ab True] have "comesBefore f a a" .
    then show False using consistent_refl [OF c a] by (simp add: tiedWith_def)
  next
    case False
    then have "tiedWith f b a" using na by (simp add: tiedWith_def)
    from consistent_sym [OF c b a this] show False using ab by (simp add: tiedWith_def)
  qed
qed

lemma consistent_not_after_trans:
  assumes c: "consistentComparator f S" and a: "a \<in> S" and b: "b \<in> S" and d: "d \<in> S"
    and ab: "\<not> comesAfter f a b" and bd: "\<not> comesAfter f b d"
  shows "\<not> comesAfter f a d"
proof
  assume ad: "comesAfter f a d"
  show False
  proof (cases "comesBefore f a b")
    case True
    then have "comesAfter f b a" by (rule consistent_before_after [OF c a b])
    from consistent_after_trans [OF c b a d this ad] show False using bd by simp
  next
    case False
    then have tab: "tiedWith f a b" using ab by (simp add: tiedWith_def)
    show False
    proof (cases "comesBefore f b d")
      case True
      then have "comesAfter f d b" by (rule consistent_before_after [OF c b d])
      from consistent_after_trans [OF c a d b ad this] show False using ab by simp
    next
      case False
      then have "tiedWith f b d" using bd by (simp add: tiedWith_def)
      from consistent_tied_trans [OF c a b d tab this] show False
        using ad by (simp add: tiedWith_def)
    qed
  qed
qed

lemma mset_sortInsert: "mset (sortInsert f x ys) = add_mset x (mset ys)"
  by (induction ys) simp_all

lemma mset_stableSort: "mset (stableSort f xs) = mset xs"
  by (induction xs) (simp_all add: mset_sortInsert)

lemma set_sortInsert: "set (sortInsert f x ys) = insert x (set ys)"
  by (induction ys) auto

lemma set_stableSort: "set (stableSort f xs) = set xs"
  by (induction xs) (simp_all add: set_sortInsert)

lemma sorted_sortInsert:
  assumes c: "consistentComparator f S" and x: "x \<in> S" and ys: "set ys \<subseteq> S"
    and s: "sorted_wrt (\<lambda>a b. \<not> comesAfter f a b) ys"
  shows "sorted_wrt (\<lambda>a b. \<not> comesAfter f a b) (sortInsert f x ys)"
  using ys s
proof (induction ys)
  case Nil
  then show ?case by simp
next
  case (Cons y ys)
  have y: "y \<in> S" and rest: "set ys \<subseteq> S" using Cons.prems(1) by simp_all
  have sy: "\<forall>z\<in>set ys. \<not> comesAfter f y z" and ss: "sorted_wrt (\<lambda>a b. \<not> comesAfter f a b) ys"
    using Cons.prems(2) by simp_all
  show ?case
  proof (cases "comesAfter f x y")
    case True
    have "comesBefore f y x" using True by (rule consistent_after_before [OF c x y])
    then have "\<not> comesAfter f y x" using not_before_and_after [of f y x] by blast
    then have "\<forall>z\<in>set (sortInsert f x ys). \<not> comesAfter f y z"
      using sy by (simp add: set_sortInsert)
    then show ?thesis using True Cons.IH [OF rest ss] by simp
  next
    case False
    have "\<forall>z\<in>set ys. \<not> comesAfter f x z"
    proof
      fix z assume z: "z \<in> set ys"
      then have "z \<in> S" using rest by blast
      from consistent_not_after_trans [OF c x y this False] sy z
      show "\<not> comesAfter f x z" by blast
    qed
    then show ?thesis using False Cons.prems(2) by simp
  qed
qed

lemma sorted_stableSort:
  "consistentComparator f S \<Longrightarrow> set xs \<subseteq> S \<Longrightarrow>
     sorted_wrt (\<lambda>a b. \<not> comesAfter f a b) (stableSort f xs)"
proof (induction xs)
  case Nil
  then show ?case by simp
next
  case (Cons x xs)
  have "x \<in> S" "set (stableSort f xs) \<subseteq> S" using Cons.prems(2) by (simp_all add: set_stableSort)
  from sorted_sortInsert [OF Cons.prems(1) this] Cons show ?case by simp
qed

lemma stable_sortInsert:
  assumes c: "consistentComparator f S" and x: "x \<in> S" and a: "a \<in> S"
  shows "set ys \<subseteq> S \<Longrightarrow>
     filter (tiedWith f a) (sortInsert f x ys) = filter (tiedWith f a) (x # ys)"
proof (induction ys)
  case Nil
  then show ?case by simp
next
  case (Cons y ys)
  have y: "y \<in> S" and rest: "set ys \<subseteq> S" using Cons.prems by simp_all
  show ?case
  proof (cases "comesAfter f x y")
    case False
    then show ?thesis by simp
  next
    case True
    have "\<not> (tiedWith f a x \<and> tiedWith f a y)"
    proof
      assume t: "tiedWith f a x \<and> tiedWith f a y"
      then have "tiedWith f x a" using consistent_sym [OF c a x] by blast
      from consistent_tied_trans [OF c x a y this] t have "tiedWith f x y" by blast
      then show False using True by (simp add: tiedWith_def)
    qed
    then show ?thesis using True Cons.IH [OF rest] by auto
  qed
qed

lemma stable_stableSort:
  "consistentComparator f S \<Longrightarrow> set xs \<subseteq> S \<Longrightarrow> a \<in> S \<Longrightarrow>
     filter (tiedWith f a) (stableSort f xs) = filter (tiedWith f a) xs"
proof (induction xs)
  case Nil
  then show ?case by simp
next
  case (Cons x xs)
  have x: "x \<in> S" and rest: "set xs \<subseteq> S" using Cons.prems(2) by simp_all
  have "set (stableSort f xs) \<subseteq> S" using rest by (simp add: set_stableSort)
  from stable_sortInsert [OF Cons.prems(1) x Cons.prems(3) this]
  show ?case using Cons.IH [OF Cons.prems(1) rest Cons.prems(3)] by simp
qed

lemma conformingSort_stableSort: "conformingSort stableSort"
  unfolding conformingSort_def
  by (auto simp: mset_stableSort intro: sorted_stableSort stable_stableSort)


lemma conforming_unique:
  assumes c: "consistentComparator f S"
  shows "set ys \<subseteq> S \<Longrightarrow> mset ys = mset zs \<Longrightarrow>
     sorted_wrt (\<lambda>a b. \<not> comesAfter f a b) ys \<Longrightarrow>
     sorted_wrt (\<lambda>a b. \<not> comesAfter f a b) zs \<Longrightarrow>
     (\<forall>a\<in>set ys. filter (tiedWith f a) ys = filter (tiedWith f a) zs) \<Longrightarrow> ys = zs"
proof (induction ys arbitrary: zs)
  case Nil
  then show ?case by simp
next
  case (Cons y ys)
  from Cons.prems(2) have "zs \<noteq> []" by auto
  then obtain z zs' where zs: "zs = z # zs'" by (cases zs) auto
  have y: "y \<in> S" and rest: "set ys \<subseteq> S" using Cons.prems(1) by simp_all
  have sets: "set (y # ys) = set (z # zs')" using Cons.prems(2) zs by (metis mset_eq_setD)
  then have z: "z \<in> S" using Cons.prems(1) by auto
  have yy: "tiedWith f y y" by (rule consistent_refl [OF c y])
  have zz: "tiedWith f z z" by (rule consistent_refl [OF c z])
  have nyz: "\<not> comesAfter f y z"
  proof (cases "z = y")
    case True
    then show ?thesis using yy by (simp add: tiedWith_def)
  next
    case False
    then have "z \<in> set ys" using sets by auto
    then show ?thesis using Cons.prems(3) by simp
  qed
  have nzy: "\<not> comesAfter f z y"
  proof (cases "y = z")
    case True
    then show ?thesis using zz by (simp add: tiedWith_def)
  next
    case False
    then have "y \<in> set zs'" using sets by auto
    then show ?thesis using Cons.prems(4) zs by simp
  qed
  have "\<not> comesBefore f y z" using consistent_before_after [OF c y z] nzy by blast
  then have tyz: "tiedWith f y z" using nyz by (simp add: tiedWith_def)
  have "filter (tiedWith f y) (y # ys) = filter (tiedWith f y) (z # zs')"
    using Cons.prems(5) zs by simp
  then have heads: "y = z" using yy tyz by simp
  have m: "mset ys = mset zs'" using Cons.prems(2) zs heads by simp
  have s1: "sorted_wrt (\<lambda>a b. \<not> comesAfter f a b) ys" using Cons.prems(3) by simp
  have s2: "sorted_wrt (\<lambda>a b. \<not> comesAfter f a b) zs'" using Cons.prems(4) zs by simp
  have st: "\<forall>a\<in>set ys. filter (tiedWith f a) ys = filter (tiedWith f a) zs'"
  proof
    fix a assume "a \<in> set ys"
    then have "filter (tiedWith f a) (y # ys) = filter (tiedWith f a) (y # zs')"
      using Cons.prems(5) zs heads by simp
    then show "filter (tiedWith f a) ys = filter (tiedWith f a) zs'"
      by (cases "tiedWith f a y") simp_all
  qed
  from Cons.IH [OF rest m s1 s2 st] show ?case using zs heads by simp
qed

lemma conforming_is_stableSort:
  assumes "conformingSort srt" and c: "consistentComparator f (set xs)"
  shows "srt f xs = stableSort f xs"
proof -
  have m: "mset (srt f xs) = mset xs" using assms(1) by (simp add: conformingSort_def)
  then have sets: "set (srt f xs) = set xs" by (rule mset_eq_setD)
  have s1: "sorted_wrt (\<lambda>a b. \<not> comesAfter f a b) (srt f xs)"
    using assms by (simp add: conformingSort_def)
  have t1: "\<forall>a\<in>set xs. filter (tiedWith f a) (srt f xs) = filter (tiedWith f a) xs"
    using assms by (simp add: conformingSort_def)
  have s2: "sorted_wrt (\<lambda>a b. \<not> comesAfter f a b) (stableSort f xs)"
    by (rule sorted_stableSort [OF c]) simp
  have t2: "\<forall>a\<in>set xs. filter (tiedWith f a) (stableSort f xs) = filter (tiedWith f a) xs"
    using stable_stableSort [OF c] by simp
  show ?thesis
  proof (rule conforming_unique [OF c])
    show "set (srt f xs) \<subseteq> set xs" using sets by simp
    show "mset (srt f xs) = mset (stableSort f xs)" using m by (simp add: mset_stableSort)
    show "sorted_wrt (\<lambda>a b. \<not> comesAfter f a b) (srt f xs)" by (rule s1)
    show "sorted_wrt (\<lambda>a b. \<not> comesAfter f a b) (stableSort f xs)" by (rule s2)
    show "\<forall>a\<in>set (srt f xs). filter (tiedWith f a) (srt f xs)
        = filter (tiedWith f a) (stableSort f xs)"
      using t1 t2 sets by simp
  qed
qed

lemma filter_take_sorted_wrt:
  "sorted_wrt R xs \<Longrightarrow> (\<forall>a\<in>set xs. \<forall>b\<in>set xs. R a b \<longrightarrow> P b \<longrightarrow> P a) \<Longrightarrow>
     filter P (take n xs) = take n (filter P xs)"
proof (induction xs arbitrary: n)
  case Nil
  then show ?case by simp
next
  case (Cons x xs)
  have s: "sorted_wrt R xs" and up: "\<forall>a\<in>set xs. \<forall>b\<in>set xs. R a b \<longrightarrow> P b \<longrightarrow> P a"
    using Cons.prems by simp_all
  show ?case
  proof (cases n)
    case 0
    then show ?thesis by simp
  next
    case (Suc m)
    show ?thesis
    proof (cases "P x")
      case True
      then show ?thesis using Cons.IH [OF s up] Suc by simp
    next
      case False
      have "\<forall>y\<in>set xs. \<not> P y"
      proof
        fix y assume y: "y \<in> set xs"
        then have "R x y" using Cons.prems(1) by simp
        then show "\<not> P y" using Cons.prems(2) False y by auto
      qed
      then have "filter P xs = []" "filter P (take m xs) = []"
        by (auto simp: filter_empty_conv dest: in_set_takeD)
      then show ?thesis using False Suc by simp
    qed
  qed
qed


section \<open>Properties of search\<close>

subsection \<open>Scores and the comparator of search\<close>

lemma foldl_jsAdd_wellRounded:
  "wellRounded acc \<Longrightarrow> wellRounded (foldl (\<lambda>dot i. jsAdd dot (f i)) acc js)"
  by (induction js arbitrary: acc) (simp_all add: jsAdd_wellRounded)

lemma cosineSimilarity_wellRounded: "wellRounded (cosineSimilarity q d)"
  unfolding cosineSimilarity_def
  by (rule foldl_jsAdd_wellRounded) (simp add: wellRounded_def onGrid_zero)

lemma scoreAll_member:
  "s \<in> set (scoreAll q cs) \<Longrightarrow> chunk s \<in> set cs \<and> score s = scoreOf q (chunk s)"
  by (auto simp: scoreAll_def scoreOf_def)

lemma comparator_relations:
  assumes "score a \<noteq> NaN" and "score b \<noteq> NaN"
    and "wellRounded (score a)" and "wellRounded (score b)"
  shows "comesAfter (\<lambda>a b. jsSub (score b) (score a)) a b = jsLess (score a) (score b)"
    and "comesBefore (\<lambda>a b. jsSub (score b) (score a)) a b = jsLess (score b) (score a)"
    and "tiedWith (\<lambda>a b. jsSub (score b) (score a)) a b = (score a = score b)"
proof -
  show after: "comesAfter (\<lambda>a b. jsSub (score b) (score a)) a b = jsLess (score a) (score b)"
    unfolding comesAfter_def by (rule jsSub_sign(1) [OF assms(3,4,1,2)])
  show before: "comesBefore (\<lambda>a b. jsSub (score b) (score a)) a b = jsLess (score b) (score a)"
    unfolding comesBefore_def by (rule jsSub_sign(2) [OF assms(3,4,1,2)])
  show "tiedWith (\<lambda>a b. jsSub (score b) (score a)) a b = (score a = score b)"
    unfolding tiedWith_def after before
    using jsLess_linear [OF assms(1,2)] jsLess_irrefl [of "score a"] by auto
qed

lemma numeric_consistent:
  assumes "numericScores S"
  shows "consistentComparator (\<lambda>a b. jsSub (score b) (score a)) S"
  unfolding consistentComparator_def
proof (intro ballI)
  fix a b c assume "a \<in> S" "b \<in> S" "c \<in> S"
  then have n: "score a \<noteq> NaN" "score b \<noteq> NaN" "score c \<noteq> NaN"
    "wellRounded (score a)" "wellRounded (score b)" "wellRounded (score c)"
    using assms by (simp_all add: numericScores_def)
  note r = comparator_relations
  show "tiedWith (\<lambda>a b. jsSub (score b) (score a)) a a \<and>
       (tiedWith (\<lambda>a b. jsSub (score b) (score a)) a b \<longrightarrow>
        tiedWith (\<lambda>a b. jsSub (score b) (score a)) b a) \<and>
       (tiedWith (\<lambda>a b. jsSub (score b) (score a)) a b \<and>
        tiedWith (\<lambda>a b. jsSub (score b) (score a)) b c \<longrightarrow>
        tiedWith (\<lambda>a b. jsSub (score b) (score a)) a c) \<and>
       (comesBefore (\<lambda>a b. jsSub (score b) (score a)) a b \<and>
        comesBefore (\<lambda>a b. jsSub (score b) (score a)) b c \<longrightarrow>
        comesBefore (\<lambda>a b. jsSub (score b) (score a)) a c) \<and>
       (comesAfter (\<lambda>a b. jsSub (score b) (score a)) a b \<and>
        comesAfter (\<lambda>a b. jsSub (score b) (score a)) b c \<longrightarrow>
        comesAfter (\<lambda>a b. jsSub (score b) (score a)) a c)"
    unfolding r(3) [OF n(1,1,4,4)] r(3) [OF n(1,2,4,5)] r(3) [OF n(2,1,5,4)]
      r(3) [OF n(2,3,5,6)] r(3) [OF n(1,3,4,6)]
      r(2) [OF n(1,2,4,5)] r(2) [OF n(2,3,5,6)] r(2) [OF n(1,3,4,6)]
      r(1) [OF n(1,2,4,5)] r(1) [OF n(2,3,5,6)] r(1) [OF n(1,3,4,6)]
    by (auto intro: jsLess_trans)
qed

lemma scoreAll_numeric:
  assumes "\<forall>c\<in>set cs. cosineSimilarity q (embedding c) \<noteq> NaN"
  shows "numericScores (set (scoreAll q cs))"
  unfolding numericScores_def
  using assms by (auto simp: scoreAll_def cosineSimilarity_wellRounded)


subsection \<open>The ranking with a conforming sort\<close>

lemma slice0_is_take: "\<exists>m. slice0 xs k = take m xs"
  by (auto simp: slice0_def)

lemma set_slice0: "set (slice0 xs k) \<subseteq> set xs"
  by (auto simp: slice0_def dest: in_set_takeD)

lemma conforming_mset: "conformingSort srt \<Longrightarrow> mset (srt f xs) = mset xs"
  by (simp add: conformingSort_def)

lemma conforming_set: "conformingSort srt \<Longrightarrow> set (srt f xs) = set xs"
  by (rule mset_eq_setD) (rule conforming_mset)

lemma conforming_filter_length:
  assumes "conformingSort srt"
  shows "length (filter P (srt f xs)) = length (filter P xs)"
proof -
  have "mset (filter P (srt f xs)) = mset (filter P xs)"
    using conforming_mset [OF assms, of f xs] by simp
  then show ?thesis by (rule mset_eq_length)
qed

lemma rankChunks_members:
  assumes "conformingSort (arraySort w)" and "c \<in> set (rankChunks w q k cs)"
  shows "c \<in> set cs \<and> aboveThreshold q c"
proof -
  let ?S = "arraySort w (\<lambda>a b. jsSub (score b) (score a)) (scoreAll q cs)"
  from assms(2) obtain sc where sc: "sc \<in> set (slice0 ?S k)"
    and gt: "jsGreater (score sc) THRESHOLD" and c: "c = chunk sc"
    by (auto simp: rankChunks_def)
  have "sc \<in> set ?S" by (rule subsetD [OF set_slice0 sc])
  then have "sc \<in> set (scoreAll q cs)" by (simp add: conforming_set [OF assms(1)])
  from scoreAll_member [OF this] show ?thesis using gt c by (simp add: aboveThreshold_def)
qed

lemma rankChunks_Nil: "conformingSort (arraySort w) \<Longrightarrow> rankChunks w q k [] = []"
proof -
  assume c: "conformingSort (arraySort w)"
  have "set (arraySort w (\<lambda>a b. jsSub (score b) (score a)) (scoreAll q [])) = {}"
    by (simp add: conforming_set [OF c] scoreAll_def)
  then show ?thesis by (simp add: rankChunks_def slice0_def)
qed

lemma search_ranks:
  assumes "conformingSort (arraySort w)" and "\<not> getAIThrows w"
    and "embedContent w (length (embedLog s)) query = Resolved (Some q)"
  shows "fst (search w query topK s) = Inr (rankChunks w q (topKOrDefault topK) (chunks s))"
proof (cases "chunks s = []")
  case True
  then show ?thesis by (simp add: search_def rankChunks_Nil [OF assms(1)])
next
  case False
  then show ?thesis using assms by (simp add: search_def Let_def)
qed

lemma sorted_by_score:
  assumes c: "conformingSort (arraySort w)"
    and n: "\<forall>c\<in>set cs. cosineSimilarity q (embedding c) \<noteq> NaN"
  shows "sorted_wrt (\<lambda>a b. jsGreaterEq (score a) (score b))
           (arraySort w (\<lambda>a b. jsSub (score b) (score a)) (scoreAll q cs))"
proof -
  let ?f = "\<lambda>a b. jsSub (score b) (score a)"
  let ?xs = "scoreAll q cs"
  have num: "numericScores (set ?xs)" by (rule scoreAll_numeric [OF n])
  have cons: "consistentComparator ?f (set ?xs)" by (rule numeric_consistent [OF num])
  have s: "sorted_wrt (\<lambda>a b. \<not> comesAfter ?f a b) (arraySort w ?f ?xs)"
    using c cons by (simp add: conformingSort_def)
  show ?thesis
  proof (rule sorted_wrt_mono_rel [OF _ s])
    fix a b assume "a \<in> set (arraySort w ?f ?xs)" "b \<in> set (arraySort w ?f ?xs)"
      and na: "\<not> comesAfter ?f a b"
    then have ab: "a \<in> set ?xs" "b \<in> set ?xs" by (simp_all add: conforming_set [OF c])
    then have g: "score a \<noteq> NaN" "score b \<noteq> NaN" "wellRounded (score a)" "wellRounded (score b)"
      using num by (simp_all add: numericScores_def)
    from na show "jsGreaterEq (score a) (score b)"
      unfolding comparator_relations(1) [OF g] using g by (simp add: jsGreaterEq_def)
  qed
qed

lemma stable_by_score:
  assumes c: "conformingSort (arraySort w)"
    and n: "\<forall>c\<in>set cs. cosineSimilarity q (embedding c) \<noteq> NaN"
  shows "filter (\<lambda>s. score s = v) (arraySort w (\<lambda>a b. jsSub (score b) (score a)) (scoreAll q cs))
       = filter (\<lambda>s. score s = v) (scoreAll q cs)"
proof -
  let ?f = "\<lambda>a b. jsSub (score b) (score a)"
  let ?xs = "scoreAll q cs"
  let ?S = "arraySort w ?f ?xs"
  have num: "numericScores (set ?xs)" by (rule scoreAll_numeric [OF n])
  have cons: "consistentComparator ?f (set ?xs)" by (rule numeric_consistent [OF num])
  have sets: "set ?S = set ?xs" by (rule conforming_set [OF c])
  show ?thesis
  proof (cases "\<exists>a\<in>set ?xs. score a = v")
    case False
    then have "filter (\<lambda>s. score s = v) ?xs = []" "filter (\<lambda>s. score s = v) ?S = []"
      using sets by (auto simp: filter_empty_conv)
    then show ?thesis by simp
  next
    case True
    then obtain a where a: "a \<in> set ?xs" and av: "score a = v" by blast
    have t: "filter (tiedWith ?f a) ?S = filter (tiedWith ?f a) ?xs"
      using c cons a by (simp add: conformingSort_def)
    have rel: "tiedWith ?f a s = (score s = v)" if "s \<in> set ?xs" for s
    proof -
      have g: "score a \<noteq> NaN" "score s \<noteq> NaN" "wellRounded (score a)" "wellRounded (score s)"
        using num a that by (simp_all add: numericScores_def)
      show ?thesis unfolding comparator_relations(3) [OF g] using av by auto
    qed
    have "filter (\<lambda>s. score s = v) ?S = filter (tiedWith ?f a) ?S"
      by (rule filter_cong) (simp_all add: rel sets)
    also have "\<dots> = filter (tiedWith ?f a) ?xs" by (rule t)
    also have "\<dots> = filter (\<lambda>s. score s = v) ?xs"
      by (rule filter_cong) (simp_all add: rel)
    finally show ?thesis .
  qed
qed

lemma threshold_before_truncation:
  assumes c: "conformingSort (arraySort w)"
    and n: "\<forall>c\<in>set cs. cosineSimilarity q (embedding c) \<noteq> NaN"
  shows "filter (\<lambda>s. jsGreater (score s) THRESHOLD)
           (take m (arraySort w (\<lambda>a b. jsSub (score b) (score a)) (scoreAll q cs)))
       = take m (filter (\<lambda>s. jsGreater (score s) THRESHOLD)
           (arraySort w (\<lambda>a b. jsSub (score b) (score a)) (scoreAll q cs)))"
proof (rule filter_take_sorted_wrt [OF sorted_by_score [OF c n]], intro ballI impI)
  fix a b
  assume ge: "jsGreaterEq (score a) (score b)" and gt: "jsGreater (score b) THRESHOLD"
  have "score a = score b \<or> jsLess (score b) (score a)"
    using ge jsLess_linear [of "score a" "score b"] by (auto simp: jsGreaterEq_def)
  then show "jsGreater (score a) THRESHOLD"
    using gt unfolding jsGreater_def by (auto intro: jsLess_trans)
qed

lemma scored_filter_chunks:
  "map chunk (filter (\<lambda>s. jsGreater (score s) THRESHOLD) (scoreAll q cs))
     = filter (aboveThreshold q) cs"
  by (induction cs) (simp_all add: scoreAll_def aboveThreshold_def scoreOf_def)

lemma scored_filter_sorted:
  assumes c: "conformingSort (arraySort w)"
  shows "map chunk (filter (\<lambda>s. jsGreater (score s) THRESHOLD) (arraySort w f (scoreAll q cs)))
     = filter (aboveThreshold q) (map chunk (arraySort w f (scoreAll q cs)))"
proof -
  have "filter (\<lambda>s. jsGreater (score s) THRESHOLD) (arraySort w f (scoreAll q cs))
      = filter (aboveThreshold q \<circ> chunk) (arraySort w f (scoreAll q cs))"
  proof (rule filter_cong [OF refl])
    fix s assume "s \<in> set (arraySort w f (scoreAll q cs))"
    then have "s \<in> set (scoreAll q cs)" by (simp add: conforming_set [OF c])
    from scoreAll_member [OF this]
    show "jsGreater (score s) THRESHOLD = (aboveThreshold q \<circ> chunk) s"
      by (simp add: aboveThreshold_def)
  qed
  then show ?thesis by (simp add: filter_map)
qed

lemma rankChunks_length:
  assumes c: "conformingSort (arraySort w)"
    and n: "\<forall>c\<in>set cs. cosineSimilarity q (embedding c) \<noteq> NaN"
    and k: "0 \<le> k"
  shows "rankChunks w q k cs
       = take (nat k) (filter (aboveThreshold q)
           (map chunk (arraySort w (\<lambda>a b. jsSub (score b) (score a)) (scoreAll q cs))))"
    and "length (rankChunks w q k cs) = min (nat k) (length (filter (aboveThreshold q) cs))"
proof -
  let ?P = "\<lambda>s. jsGreater (score s) THRESHOLD"
  let ?S = "arraySort w (\<lambda>a b. jsSub (score b) (score a)) (scoreAll q cs)"
  have r: "rankChunks w q k cs = map chunk (take (nat k) (filter ?P ?S))"
    using k by (simp add: rankChunks_def slice0_def threshold_before_truncation [OF c n])
  show "rankChunks w q k cs = take (nat k) (filter (aboveThreshold q) (map chunk ?S))"
    unfolding r by (simp add: scored_filter_sorted [OF c, symmetric] take_map)
  have "length (filter ?P ?S) = length (filter ?P (scoreAll q cs))"
    by (rule conforming_filter_length [OF c])
  also have "\<dots> = length (map chunk (filter ?P (scoreAll q cs)))" by simp
  also have "\<dots> = length (filter (aboveThreshold q) cs)"
    by (simp only: scored_filter_chunks)
  finally show "length (rankChunks w q k cs) = min (nat k) (length (filter (aboveThreshold q) cs))"
    unfolding r by simp
qed

lemma rankChunks_sorted:
  assumes c: "conformingSort (arraySort w)"
    and n: "\<forall>c\<in>set cs. cosineSimilarity q (embedding c) \<noteq> NaN"
  shows "sorted_wrt (\<lambda>a b. jsGreaterEq (scoreOf q a) (scoreOf q b)) (rankChunks w q k cs)"
proof -
  let ?P = "\<lambda>s. jsGreater (score s) THRESHOLD"
  let ?S = "arraySort w (\<lambda>a b. jsSub (score b) (score a)) (scoreAll q cs)"
  obtain m where m: "slice0 ?S k = take m ?S" using slice0_is_take by blast
  have "sorted_wrt (\<lambda>a b. jsGreaterEq (scoreOf q (chunk a)) (scoreOf q (chunk b))) ?S"
  proof (rule sorted_wrt_mono_rel [OF _ sorted_by_score [OF c n]])
    fix a b assume "a \<in> set ?S" "b \<in> set ?S" and ge: "jsGreaterEq (score a) (score b)"
    then have "a \<in> set (scoreAll q cs)" "b \<in> set (scoreAll q cs)"
      by (simp_all add: conforming_set [OF c])
    then show "jsGreaterEq (scoreOf q (chunk a)) (scoreOf q (chunk b))"
      using ge scoreAll_member by metis
  qed
  then have "sorted_wrt (\<lambda>a b. jsGreaterEq (scoreOf q (chunk a)) (scoreOf q (chunk b)))
      (filter ?P (take m ?S))"
    by (intro sorted_wrt_filter sorted_wrt_take)
  then show ?thesis unfolding rankChunks_def m by (simp add: sorted_wrt_map)
qed

lemma filter_commute: "filter P (filter Q xs) = filter Q (filter P xs)"
  by (induction xs) auto

lemma filter_same_score:
  "filter (\<lambda>s. jsGreater (score s) t) (filter (\<lambda>s. score s = v) xs)
     = (if jsGreater v t then filter (\<lambda>s. score s = v) xs else [])"
  by (induction xs) auto

lemma scored_same_chunks:
  "map chunk (filter (\<lambda>s. score s = v) (scoreAll q cs)) = filter (\<lambda>c. scoreOf q c = v) cs"
  by (induction cs) (simp_all add: scoreAll_def scoreOf_def)

lemma rankChunks_stable:
  assumes c: "conformingSort (arraySort w)"
    and n: "\<forall>c\<in>set cs. cosineSimilarity q (embedding c) \<noteq> NaN"
  shows "prefix (filter (\<lambda>c. scoreOf q c = v) (rankChunks w q k cs))
           (filter (\<lambda>c. scoreOf q c = v) cs)"
proof -
  let ?P = "\<lambda>s. jsGreater (score s) THRESHOLD"
  let ?E = "\<lambda>s. score s = v"
  let ?S = "arraySort w (\<lambda>a b. jsSub (score b) (score a)) (scoreAll q cs)"
  obtain m where m: "slice0 ?S k = take m ?S" using slice0_is_take by blast
  let ?F = "filter ?P (take m ?S)"
  have inS: "set ?F \<subseteq> set (scoreAll q cs)"
    using conforming_set [OF c, of "\<lambda>a b. jsSub (score b) (score a)" "scoreAll q cs"]
    by (auto dest: in_set_takeD)
  have "filter (\<lambda>c. scoreOf q c = v) (map chunk ?F) = map chunk (filter ((\<lambda>c. scoreOf q c = v) \<circ> chunk) ?F)"
    by (simp add: filter_map)
  also have "filter ((\<lambda>c. scoreOf q c = v) \<circ> chunk) ?F = filter ?E ?F"
  proof (rule filter_cong [OF refl])
    fix s assume "s \<in> set ?F"
    then have "s \<in> set (scoreAll q cs)" using inS by blast
    from scoreAll_member [OF this] show "((\<lambda>c. scoreOf q c = v) \<circ> chunk) s = (score s = v)"
      by simp
  qed
  finally have lhs: "filter (\<lambda>c. scoreOf q c = v) (rankChunks w q k cs) = map chunk (filter ?E ?F)"
    by (simp add: rankChunks_def m)
  have "prefix (take m ?S) ?S" by (rule take_is_prefix)
  then have p1: "prefix (filter ?E ?F) (filter ?E (filter ?P ?S))"
    by (intro filter_mono_prefix)
  have "filter ?E (filter ?P ?S) = filter ?P (filter ?E ?S)"
    by (rule filter_commute)
  also have "\<dots> = filter ?P (filter ?E (scoreAll q cs))"
    by (simp only: stable_by_score [OF c n])
  finally have e1: "filter ?E (filter ?P ?S) = filter ?P (filter ?E (scoreAll q cs))" .
  have p2: "prefix (filter ?P (filter ?E (scoreAll q cs))) (filter ?E (scoreAll q cs))"
    by (subst filter_same_score) simp
  from p1 have "prefix (filter ?E ?F) (filter ?P (filter ?E (scoreAll q cs)))"
    unfolding e1 .
  then have "prefix (filter ?E ?F) (filter ?E (scoreAll q cs))"
    using p2 by (rule prefix_order.order_trans)
  then have "prefix (map chunk (filter ?E ?F)) (map chunk (filter ?E (scoreAll q cs)))"
    by (rule map_mono_prefix)
  then show ?thesis unfolding lhs by (simp only: scored_same_chunks)
qed

lemma rankChunks_engine_independent:
  assumes "conformingSort (arraySort w)" and "conformingSort (arraySort w')"
    and n: "\<forall>c\<in>set cs. cosineSimilarity q (embedding c) \<noteq> NaN"
  shows "rankChunks w' q k cs = rankChunks w q k cs"
proof -
  have cons: "consistentComparator (\<lambda>a b. jsSub (score b) (score a)) (set (scoreAll q cs))"
    by (rule numeric_consistent [OF scoreAll_numeric [OF n]])
  show ?thesis
    unfolding rankChunks_def
    by (simp only: conforming_is_stableSort [OF assms(1) cons]
        conforming_is_stableSort [OF assms(2) cons])
qed

lemma rankChunks_closed:
  assumes c: "conformingSort (arraySort w)"
    and n: "\<forall>c\<in>set cs. cosineSimilarity q (embedding c) \<noteq> NaN"
    and k: "0 \<le> k"
  shows "rankChunks w q k cs
       = take (nat k) (filter (aboveThreshold q)
           (map chunk (stableSort (\<lambda>a b. jsSub (score b) (score a)) (scoreAll q cs))))"
proof -
  have cons: "consistentComparator (\<lambda>a b. jsSub (score b) (score a)) (set (scoreAll q cs))"
    by (rule numeric_consistent [OF scoreAll_numeric [OF n]])
  show ?thesis
    unfolding rankChunks_length(1) [OF c n k]
    by (simp only: conforming_is_stableSort [OF c cons])
qed

lemma rankChunks_complete:
  assumes c: "conformingSort (arraySort w)"
    and n: "\<forall>c\<in>set cs. cosineSimilarity q (embedding c) \<noteq> NaN"
    and k: "0 \<le> k"
    and enough: "length (filter (aboveThreshold q) cs) \<le> nat k"
  shows "set (rankChunks w q k cs) = {c \<in> set cs. aboveThreshold q c}"
proof -
  let ?S = "arraySort w (\<lambda>a b. jsSub (score b) (score a)) (scoreAll q cs)"
  let ?F = "filter (aboveThreshold q) (map chunk ?S)"
  have r: "rankChunks w q k cs = take (nat k) ?F" by (rule rankChunks_length(1) [OF c n k])
  have "length (take (nat k) ?F) = min (nat k) (length (filter (aboveThreshold q) cs))"
    using rankChunks_length(2) [OF c n k] by (simp only: r)
  then have "length (take (nat k) ?F) = length (filter (aboveThreshold q) cs)"
    using enough by simp
  moreover have "length ?F = length (filter (aboveThreshold q) cs)"
  proof -
    have "mset (map chunk ?S) = mset (map chunk (scoreAll q cs))"
      by (simp add: conforming_mset [OF c])
    also have "map chunk (scoreAll q cs) = cs" by (simp add: scoreAll_def o_def)
    finally have "mset ?F = mset (filter (aboveThreshold q) cs)" by simp
    then show ?thesis by (rule mset_eq_length)
  qed
  ultimately have "take (nat k) ?F = ?F" by simp
  then have "set (rankChunks w q k cs) = set ?F" by (simp only: r)
  also have "set (map chunk ?S) = set cs"
    by (simp add: conforming_set [OF c] scoreAll_def image_image)
  then have "set ?F = {c \<in> set cs. aboveThreshold q c}" by auto
  finally show ?thesis .
qed

subsection \<open>The ranking on stored chunks\<close>

lemma example_exact:
  "roundDouble 0 = Fin 0"
  "roundDouble 1 = Fin 1"
  "roundDouble (7 / 8) = Fin (7 / 8)"
  "roundDouble (1 / 2) = Fin (1 / 2)"
  "roundDouble (1 / 4) = Fin (1 / 4)"
  "roundDouble (3 / 8) = Fin (3 / 8)"
  "roundDouble (5 / 8) = Fin (5 / 8)"
  "roundDouble (- (1 / 4)) = Fin (- (1 / 4))"
  "roundDouble (- (3 / 8)) = Fin (- (3 / 8))"
  "roundDouble (- (5 / 8)) = Fin (- (5 / 8))"
  using roundDouble_dyadic [of 0 0] roundDouble_dyadic [of 1 0] roundDouble_dyadic [of 7 3]
    roundDouble_dyadic [of 1 1] roundDouble_dyadic [of 1 2] roundDouble_dyadic [of 3 3]
    roundDouble_dyadic [of 5 3] roundDouble_dyadic [of "- 1" 2] roundDouble_dyadic [of "- 3" 3]
    roundDouble_dyadic [of "- 5" 3]
  by simp_all

text \<open>The literal \<^verbatim>\<open>0.45\<close> is the double 8106479329266893 / 2 ^ 54, a little above 45/100.\<close>

lemma example_threshold: "THRESHOLD = Fin (8106479329266893 / 18014398509481984)"
  unfolding THRESHOLD_def by code_simp

lemma example_scores:
  "cosineSimilarity [Fin 1, Fin 0] (embedding chunkA) = Fin (7 / 8)"
  "cosineSimilarity [Fin 1, Fin 0] (embedding chunkB) = Fin (1 / 4)"
  "cosineSimilarity [Fin 1, Fin 0] (embedding chunkC) = Fin (1 / 2)"
  "cosineSimilarity [Fin 1, Fin 0] (embedding chunkD) = Fin (1 / 2)"
  "cosineSimilarity [Fin 1, Fin 0] (embedding shortChunk) = NaN"
  by (simp_all add: cosineSimilarity_def readAt_def chunkA_def chunkB_def chunkC_def chunkD_def
      shortChunk_def upt_rec example_exact)

lemma example_above:
  "aboveThreshold [Fin 1, Fin 0] chunkA"
  "\<not> aboveThreshold [Fin 1, Fin 0] chunkB"
  "aboveThreshold [Fin 1, Fin 0] chunkC"
  "aboveThreshold [Fin 1, Fin 0] chunkD"
  "\<not> aboveThreshold [Fin 1, Fin 0] shortChunk"
  by (simp_all add: aboveThreshold_def scoreOf_def example_scores example_threshold jsGreater_def)

lemmas example_compare = comesAfter_def comesBefore_def tiedWith_def jsGreater_def jsSub_def
  example_exact example_threshold

lemma example_rank2:
  "rankChunks exampleWorld [Fin 1, Fin 0] 2 [chunkB, chunkC, chunkA, chunkD] = [chunkA, chunkC]"
  by (simp add: rankChunks_def exampleWorld_def scoreAll_def slice0_def example_scores
      example_compare)

lemma example_rank3:
  "rankChunks exampleWorld [Fin 1, Fin 0] 3 [chunkB, chunkC, chunkA, chunkD]
     = [chunkA, chunkC, chunkD]"
  by (simp add: rankChunks_def exampleWorld_def scoreAll_def slice0_def example_scores
      example_compare)

lemma example_search_hyps:
  "conformingSort (arraySort exampleWorld)"
  "\<not> getAIThrows exampleWorld"
  "embedContent exampleWorld (length (embedLog rankState)) (utf16 ''q'')
     = Resolved (Some [Fin 1, Fin 0])"
  "\<forall>c\<in>set (chunks rankState). cosineSimilarity [Fin 1, Fin 0] (embedding c) \<noteq> NaN"
  by (simp_all add: exampleWorld_def rankState_def conformingSort_stableSort example_scores)

text \<open>
  The scenario of the specification (section 8): two chunks of one document above the
  threshold and the chunk of another below it, with the default topK.
\<close>

lemma example_scenario:
  "rankChunks exampleWorld [Fin 1, Fin 0] (topKOrDefault None) [chunkA, chunkC, chunkB]
     = [chunkA, chunkC]"
  by (simp add: rankChunks_def exampleWorld_def scoreAll_def slice0_def example_scores
      example_compare topKOrDefault_def)

subsection \<open>Scores that are not the exact dot product\<close>

text \<open>
  The sum is rounded at every step. A large component absorbs a small one: the exact dot
  product of the vectors below is 1/2, above the threshold, and the score is 0.
\<close>

lemma example_absorption:
  "cosineSimilarity [Fin (2 ^ 60), Fin 1, Fin (- (2 ^ 60))] [Fin 1, Fin (1 / 2), Fin 1] = Fin 0"
proof -
  have r: "roundDouble (2 ^ 60 + 1 / 2) = Fin (2 ^ 60)" by code_simp
  have e: "roundDouble (2 ^ 60) = Fin (2 ^ 60)" "roundDouble (- (2 ^ 60)) = Fin (- (2 ^ 60))"
    using roundDouble_exact [of 1 60] roundDouble_exact [of "- 1" 60] by simp_all
  show ?thesis using r e
    by (simp add: cosineSimilarity_def readAt_def upt_rec example_exact)
qed

text \<open>
  Products beyond the largest double are infinite, and the sum of the two infinities is
  \<^verbatim>\<open>NaN\<close>: a score can be \<^verbatim>\<open>NaN\<close> although both vectors have the same length.
\<close>

lemma example_overflow:
  "cosineSimilarity [Fin (2 ^ 1023), Fin (- (2 ^ 1023))] [Fin 2, Fin 2] = NaN"
proof -
  have "roundDouble (2 ^ 1023 * 2) = PosInf" "roundDouble (- (2 ^ 1023 * 2)) = NegInf"
    using roundDouble_overflow [of "2 ^ 1023 * 2"] by simp_all
  then show ?thesis
    by (simp add: cosineSimilarity_def readAt_def upt_rec example_exact)
qed

subsection \<open>A stored vector shorter than the query vector\<close>

text \<open>
  Past the end of the stored vector the product is \<^verbatim>\<open>NaN\<close>, and so is the score. The
  comparator gives \<^verbatim>\<open>NaN\<close> against every other chunk, which the sort reads as a tie.
\<close>

lemma example_short_vector:
  "rankChunks exampleWorld [Fin 1, Fin 0] 1 [shortChunk, chunkA] = []"
  "rankChunks exampleWorld [Fin 1, Fin 0] 2 [shortChunk, chunkA] = [chunkA]"
  "rankChunks exampleWorld [Fin 1, Fin 0] 3 [chunkC, shortChunk, chunkA] = [chunkC, chunkA]"
  by (simp_all add: rankChunks_def exampleWorld_def scoreAll_def slice0_def example_scores
      example_compare)

text \<open>
  With one such chunk in front of one other chunk every comparison is a tie, the
  comparator is consistent, and every conforming sort leaves the array as it is: the
  chunk without a score holds the first place in every engine.
\<close>

lemma short_vector_any_engine:
  assumes "conformingSort (arraySort w)"
  shows "rankChunks w [Fin 1, Fin 0] 1 [shortChunk, chunkA] = []"
proof -
  let ?f = "\<lambda>a b. jsSub (score b) (score a)"
  let ?xs = "scoreAll [Fin 1, Fin 0] [shortChunk, chunkA]"
  have xs: "?xs = [\<lparr>chunk = shortChunk, score = NaN\<rparr>, \<lparr>chunk = chunkA, score = Fin (7 / 8)\<rparr>]"
    by (simp add: scoreAll_def example_scores)
  have "consistentComparator ?f (set ?xs)"
    unfolding xs consistentComparator_def by (simp add: example_compare)
  then have "arraySort w ?f ?xs = stableSort ?f ?xs"
    by (rule conforming_is_stableSort [OF assms])
  then have "rankChunks w [Fin 1, Fin 0] 1 [shortChunk, chunkA]
      = rankChunks exampleWorld [Fin 1, Fin 0] 1 [shortChunk, chunkA]"
    by (simp add: rankChunks_def exampleWorld_def)
  then show ?thesis by (simp only: example_short_vector)
qed

lemma example_short_hyps:
  "embedContent exampleWorld (length (embedLog shortState)) (utf16 ''q'')
     = Resolved (Some [Fin 1, Fin 0])"
  "embedContent exampleWorld (length (embedLog nanState)) (utf16 ''q'')
     = Resolved (Some [Fin 1, Fin 0])"
  "chunks shortState = [shortChunk, chunkA]"
  "chunks nanState = [chunkC, shortChunk, chunkA]"
  by (simp_all add: exampleWorld_def shortState_def nanState_def)

subsection \<open>Threshold and length\<close>

text \<open>
  Claim C1, amended. The score of a chunk is the double that the code computes, and 0.45
  is the double of that literal. With a sort that meets the contract of ECMAScript, and for
  every topK of at least 1, search returns only stored chunks whose score is above 0.45:
  none at or below it, and none whose score is \<^verbatim>\<open>NaN\<close>. In a store in which no chunk has
  the score \<^verbatim>\<open>NaN\<close>, the length of the result is the minimum of topK and the number of
  stored chunks scoring above 0.45, the result is what thresholding before truncation
  gives (the first topK of the chunks above the threshold, best first, ties in the order
  of the store), and with topK at least that number every chunk above the threshold is
  returned. A chunk below the first topK is never moved up.
\<close>

theorem search_threshold_and_length:
  assumes "conformingSort (arraySort w)" and "\<not> getAIThrows w"
    and "embedContent w (length (embedLog s)) query = Resolved (Some q)"
    and "1 \<le> topKOrDefault topK"
  shows "\<exists>res. fst (search w query topK s) = Inr res
     \<and> (\<forall>c\<in>set res. c \<in> set (chunks s)
           \<and> jsGreater (cosineSimilarity q (embedding c)) THRESHOLD)
     \<and> ((\<forall>c\<in>set (chunks s). cosineSimilarity q (embedding c) \<noteq> NaN) \<longrightarrow>
          length res = min (nat (topKOrDefault topK))
            (length (filter (\<lambda>c. jsGreater (cosineSimilarity q (embedding c)) THRESHOLD)
               (chunks s)))
          \<and> res = take (nat (topKOrDefault topK))
              (filter (\<lambda>c. jsGreater (cosineSimilarity q (embedding c)) THRESHOLD)
                 (map chunk
                    (stableSort (\<lambda>a b. jsSub (score b) (score a)) (scoreAll q (chunks s)))))
          \<and> (length (filter (\<lambda>c. jsGreater (cosineSimilarity q (embedding c)) THRESHOLD)
               (chunks s)) \<le> nat (topKOrDefault topK) \<longrightarrow>
              set res = {c \<in> set (chunks s).
                 jsGreater (cosineSimilarity q (embedding c)) THRESHOLD}))"
proof -
  let ?k = "topKOrDefault topK"
  let ?res = "rankChunks w q ?k (chunks s)"
  have above: "aboveThreshold q = (\<lambda>c. jsGreater (cosineSimilarity q (embedding c)) THRESHOLD)"
    by (rule ext) (simp add: aboveThreshold_def scoreOf_def)
  have k: "0 \<le> ?k" using assms(4) by simp
  have r: "fst (search w query topK s) = Inr ?res" by (rule search_ranks [OF assms(1,2,3)])
  have a: "\<forall>c\<in>set ?res. c \<in> set (chunks s)
      \<and> jsGreater (cosineSimilarity q (embedding c)) THRESHOLD"
  proof
    fix c assume "c \<in> set ?res"
    from rankChunks_members [OF assms(1) this]
    show "c \<in> set (chunks s) \<and> jsGreater (cosineSimilarity q (embedding c)) THRESHOLD"
      by (simp add: aboveThreshold_def scoreOf_def)
  qed
  have b: "length ?res = min (nat ?k)
            (length (filter (\<lambda>c. jsGreater (cosineSimilarity q (embedding c)) THRESHOLD)
               (chunks s)))
      \<and> ?res = take (nat ?k)
              (filter (\<lambda>c. jsGreater (cosineSimilarity q (embedding c)) THRESHOLD)
                 (map chunk
                    (stableSort (\<lambda>a b. jsSub (score b) (score a)) (scoreAll q (chunks s)))))
      \<and> (length (filter (\<lambda>c. jsGreater (cosineSimilarity q (embedding c)) THRESHOLD)
               (chunks s)) \<le> nat ?k \<longrightarrow>
              set ?res = {c \<in> set (chunks s).
                 jsGreater (cosineSimilarity q (embedding c)) THRESHOLD})"
    if n: "\<forall>c\<in>set (chunks s). cosineSimilarity q (embedding c) \<noteq> NaN"
    using rankChunks_length(2) [OF assms(1) n k] rankChunks_closed [OF assms(1) n k]
      rankChunks_complete [OF assms(1) n k]
    unfolding above by blast
  from r a b show ?thesis by blast
qed

text \<open>
  Four stored chunks with the scores 1/4, 1/2, 7/8 and 1/2, and topK 2: three chunks are
  above the threshold and the best two are returned.
\<close>

theorem search_threshold_and_length_witness:
  "conformingSort (arraySort exampleWorld)
   \<and> \<not> getAIThrows exampleWorld
   \<and> embedContent exampleWorld (length (embedLog rankState)) (utf16 ''q'')
       = Resolved (Some [Fin 1, Fin 0])
   \<and> 1 \<le> topKOrDefault (Some 2)
   \<and> list_all (\<lambda>c. cosineSimilarity [Fin 1, Fin 0] (embedding c) \<noteq> NaN) (chunks rankState)
   \<and> fst (search exampleWorld (utf16 ''q'') (Some 2) rankState) = Inr [chunkA, chunkC]
   \<and> length (filter (\<lambda>c. jsGreater (cosineSimilarity [Fin 1, Fin 0] (embedding c)) THRESHOLD)
         (chunks rankState)) = 3"
proof -
  have k: "1 \<le> topKOrDefault (Some 2)" by (simp add: topKOrDefault_def)
  have ev: "fst (search exampleWorld (utf16 ''q'') (Some 2) rankState) = Inr [chunkA, chunkC]"
    using example_rank2
    by (simp add: search_def Let_def exampleWorld_def rankState_def topKOrDefault_def)
  have n: "length (filter (\<lambda>c. jsGreater (cosineSimilarity [Fin 1, Fin 0] (embedding c)) THRESHOLD)
         (chunks rankState)) = 3"
    by (simp add: rankState_def example_scores example_threshold jsGreater_def)
  from search_threshold_and_length [OF example_search_hyps(1,2,3) k]
  obtain res where "fst (search exampleWorld (utf16 ''q'') (Some 2) rankState) = Inr res"
    and "\<forall>c\<in>set res. c \<in> set (chunks rankState)
           \<and> jsGreater (cosineSimilarity [Fin 1, Fin 0] (embedding c)) THRESHOLD"
    by blast
  then show ?thesis using example_search_hyps k ev n by (simp add: list_all_iff)
qed

text \<open>
  The claim as worded, for every stored set of fragments, fails where a score is
  \<^verbatim>\<open>NaN\<close>: with topK 1 and the stored scores \<^verbatim>\<open>NaN\<close> and 7/8, one chunk is above the
  threshold, and search returns nothing, because the chunk without a score holds the one
  place of the slice and is then dropped by the filter.
\<close>

theorem search_length_counterexample:
  "conformingSort (arraySort exampleWorld)
   \<and> \<not> getAIThrows exampleWorld
   \<and> embedContent exampleWorld (length (embedLog shortState)) (utf16 ''q'')
       = Resolved (Some [Fin 1, Fin 0])
   \<and> topKOrDefault (Some 1) = 1
   \<and> chunks shortState = [shortChunk, chunkA]
   \<and> cosineSimilarity [Fin 1, Fin 0] (embedding shortChunk) = NaN
   \<and> cosineSimilarity [Fin 1, Fin 0] (embedding chunkA) = Fin (7 / 8)
   \<and> jsGreater (Fin (7 / 8)) THRESHOLD
   \<and> length (filter (\<lambda>c. jsGreater (cosineSimilarity [Fin 1, Fin 0] (embedding c)) THRESHOLD)
         (chunks shortState)) = 1
   \<and> fst (search exampleWorld (utf16 ''q'') (Some 1) shortState) = Inr []"
proof -
  have ev: "fst (search exampleWorld (utf16 ''q'') (Some 1) shortState) = Inr []"
    using example_short_vector(1)
    by (simp add: search_def Let_def exampleWorld_def shortState_def topKOrDefault_def)
  have n: "length (filter (\<lambda>c. jsGreater (cosineSimilarity [Fin 1, Fin 0] (embedding c)) THRESHOLD)
         (chunks shortState)) = 1"
    by (simp add: shortState_def example_scores example_threshold jsGreater_def)
  have t: "jsGreater (Fin (7 / 8)) THRESHOLD" by (simp add: example_threshold jsGreater_def)
  show ?thesis
    using example_search_hyps(1,2) example_short_hyps(1,3) example_scores(1,5) ev n t
    by (simp add: topKOrDefault_def)
qed

subsection \<open>Order and ties\<close>

text \<open>
  Claim C4, amended. The score of a chunk is the double that the code computes. With a
  sort that meets the contract of ECMAScript, in a store in which no chunk has the score
  \<^verbatim>\<open>NaN\<close>, the result of search is in non-increasing order of score, chunks of equal score
  keep the order of the store, and the result depends only on the stored chunks, the query
  vector and topK: every conforming engine, every state with these chunks and every query
  text with this vector gives the same list.
\<close>

theorem search_order_stable:
  assumes "conformingSort (arraySort w)" and "\<not> getAIThrows w"
    and "embedContent w (length (embedLog s)) query = Resolved (Some q)"
    and "\<forall>c\<in>set (chunks s). cosineSimilarity q (embedding c) \<noteq> NaN"
  shows "\<exists>res. fst (search w query topK s) = Inr res
     \<and> sorted_wrt (\<lambda>a b. jsGreaterEq (scoreOf q a) (scoreOf q b)) res
     \<and> (\<forall>v. prefix (filter (\<lambda>c. scoreOf q c = v) res)
                (filter (\<lambda>c. scoreOf q c = v) (chunks s)))
     \<and> (\<forall>w' s' query'. conformingSort (arraySort w') \<and> \<not> getAIThrows w'
           \<and> chunks s' = chunks s
           \<and> embedContent w' (length (embedLog s')) query' = Resolved (Some q) \<longrightarrow>
           fst (search w' query' topK s') = Inr res)"
proof -
  let ?res = "rankChunks w q (topKOrDefault topK) (chunks s)"
  have r: "fst (search w query topK s) = Inr ?res" by (rule search_ranks [OF assms(1,2,3)])
  have a: "sorted_wrt (\<lambda>a b. jsGreaterEq (scoreOf q a) (scoreOf q b)) ?res"
    by (rule rankChunks_sorted [OF assms(1,4)])
  have b: "\<forall>v. prefix (filter (\<lambda>c. scoreOf q c = v) ?res)
                (filter (\<lambda>c. scoreOf q c = v) (chunks s))"
    using rankChunks_stable [OF assms(1,4)] by blast
  have c: "fst (search w' query' topK s') = Inr ?res"
    if h: "conformingSort (arraySort w') \<and> \<not> getAIThrows w' \<and> chunks s' = chunks s
           \<and> embedContent w' (length (embedLog s')) query' = Resolved (Some q)"
    for w' s' query'
  proof -
    have "fst (search w' query' topK s') = Inr (rankChunks w' q (topKOrDefault topK) (chunks s'))"
      using h by (intro search_ranks) simp_all
    also have "rankChunks w' q (topKOrDefault topK) (chunks s') = ?res"
      using h rankChunks_engine_independent [OF assms(1) _ assms(4)] by simp
    finally show ?thesis .
  qed
  from r a b c show ?thesis by blast
qed

text \<open>
  Four stored chunks with the scores 1/4, 1/2, 7/8 and 1/2, and topK 3: the two chunks of
  score 1/2 are returned behind the best one, in the order of the store.
\<close>

theorem search_order_stable_witness:
  "conformingSort (arraySort exampleWorld)
   \<and> \<not> getAIThrows exampleWorld
   \<and> embedContent exampleWorld (length (embedLog rankState)) (utf16 ''q'')
       = Resolved (Some [Fin 1, Fin 0])
   \<and> list_all (\<lambda>c. cosineSimilarity [Fin 1, Fin 0] (embedding c) \<noteq> NaN) (chunks rankState)
   \<and> fst (search exampleWorld (utf16 ''q'') (Some 3) rankState) = Inr [chunkA, chunkC, chunkD]
   \<and> filter (\<lambda>c. scoreOf [Fin 1, Fin 0] c = Fin (1 / 2)) (chunks rankState) = [chunkC, chunkD]"
proof -
  have ev: "fst (search exampleWorld (utf16 ''q'') (Some 3) rankState)
      = Inr [chunkA, chunkC, chunkD]"
    using example_rank3
    by (simp add: search_def Let_def exampleWorld_def rankState_def topKOrDefault_def)
  have n: "filter (\<lambda>c. scoreOf [Fin 1, Fin 0] c = Fin (1 / 2)) (chunks rankState)
      = [chunkC, chunkD]"
    by (simp add: rankState_def scoreOf_def example_scores)
  from search_order_stable [OF example_search_hyps, of "Some 3"]
  obtain res where "fst (search exampleWorld (utf16 ''q'') (Some 3) rankState) = Inr res"
    and "sorted_wrt (\<lambda>a b. jsGreaterEq (scoreOf [Fin 1, Fin 0] a) (scoreOf [Fin 1, Fin 0] b)) res"
    by blast
  then show ?thesis using example_search_hyps ev n by (simp add: list_all_iff)
qed

text \<open>
  The claim as worded, for every stored fragment list, fails where a score is \<^verbatim>\<open>NaN\<close>:
  with the stored scores 1/2, \<^verbatim>\<open>NaN\<close> and 7/8 every comparison with the middle chunk is a
  tie, the array is left as it is, and search returns the chunk of score 1/2 in front of
  the chunk of score 7/8.
\<close>

theorem search_order_counterexample:
  "conformingSort (arraySort exampleWorld)
   \<and> \<not> getAIThrows exampleWorld
   \<and> embedContent exampleWorld (length (embedLog nanState)) (utf16 ''q'')
       = Resolved (Some [Fin 1, Fin 0])
   \<and> chunks nanState = [chunkC, shortChunk, chunkA]
   \<and> scoreOf [Fin 1, Fin 0] chunkC = Fin (1 / 2)
   \<and> scoreOf [Fin 1, Fin 0] shortChunk = NaN
   \<and> scoreOf [Fin 1, Fin 0] chunkA = Fin (7 / 8)
   \<and> fst (search exampleWorld (utf16 ''q'') (Some 3) nanState) = Inr [chunkC, chunkA]
   \<and> jsLess (scoreOf [Fin 1, Fin 0] chunkC) (scoreOf [Fin 1, Fin 0] chunkA)
   \<and> \<not> sorted_wrt (\<lambda>a b. jsGreaterEq (scoreOf [Fin 1, Fin 0] a) (scoreOf [Fin 1, Fin 0] b))
         [chunkC, chunkA]"
proof -
  have ev: "fst (search exampleWorld (utf16 ''q'') (Some 3) nanState) = Inr [chunkC, chunkA]"
    using example_short_vector(3)
    by (simp add: search_def Let_def exampleWorld_def nanState_def topKOrDefault_def)
  show ?thesis
    using example_search_hyps(1,2) example_short_hyps(2,4) ev
    by (simp add: scoreOf_def example_scores jsGreaterEq_def)
qed

end
